theory Spec2Isabelle
  imports Complex_Main
begin

section \<open>Data model\<close>

text \<open>
  The engine comes in two classes. \<open>Manager\<close> (src/Manager.ts) is the promise-based
  consumer: a receive loop, one lifecycle per message with a heartbeat timer, a single
  delete. \<open>SQSManager\<close> (src/SQSManager.ts) is the observable-based consumer: a poll
  loop, a retry operator around the handler's promise, a delete buffer flushed in batches.

  JavaScript runs every callback to its next \<open>await\<close> without interruption, so each
  class is modelled as a state machine: an event is something the environment does (a
  timer fires, a transport call settles, the handler's promise settles, the user calls
  \<open>stop()\<close>), and a step returns the new state with the list of actions the code
  performs before it suspends again. An event that cannot happen in a state (a tick of a
  cleared interval, the settlement of a call that is not outstanding) leaves the state
  unchanged and performs nothing.
\<close>

record Message =
  MessageId :: "string option"
  ReceiptHandle :: "string option"
  Body :: "string option"

text \<open>An error as the code inspects it: the fields \<open>Code\<close> and \<open>__type\<close>.\<close>

record SdkError =
  Code :: "string option"
  dunder_type :: "string option"

text \<open>JavaScript truthiness of an optional string: \<open>undefined\<close> and \<open>''\<close> are falsy.\<close>

definition truthy :: "string option \<Rightarrow> bool" where
  "truthy s = (case s of None \<Rightarrow> False | Some v \<Rightarrow> v \<noteq> [])"

text \<open>\<open>x || d\<close> on an optional number: \<open>undefined\<close> and \<open>0\<close> give the default.\<close>

definition js_or :: "int option \<Rightarrow> int \<Rightarrow> int" where
  "js_or x d = (case x of None \<Rightarrow> d | Some v \<Rightarrow> if v = 0 then d else v)"

text \<open>What one message's processing does, in either class.\<close>

datatype action =
    SetInterval int
  | CallHandler
  | SendChangeVisibility string
  | ClearInterval
  | SendDelete string
  | Call_onErrorVisibilityTimeout SdkError
  | Call_onErrorProccessMessage SdkError
  | RetryTimer int
  | Next
  | Complete
  | Error SdkError
  | AddToDeleteBatch

section \<open>Manager: options and constructor\<close>

record Options =
  opt_MaxNumberOfMessages :: "int option"
  opt_WaitTimeSeconds :: "int option"
  opt_VisibilityTimeout :: "int option"
  opt_heartbeatInterval :: "int option"
  opt_timeoutTemporaryError :: "int option"
  opt_onErrorReceivingMessage :: bool
  opt_onErrorVisibilityTimeout :: bool
  opt_onErrorProccessMessage :: bool
  opt_onErrorConfiguration :: bool
  opt_onErrorTemporary :: bool

text \<open>
  The fields of a constructed \<open>Manager\<close>. A callback field is \<open>True\<close> when the option
  was supplied; \<open>this.cb?.(\<dots>)\<close> calls it then and does nothing otherwise.
\<close>

record Manager_fields =
  MaxNumberOfMessages :: int
  WaitTimeSeconds :: int
  VisibilityTimeout :: int
  heartbeatInterval :: int
  timeoutTemporaryError :: int
  onErrorReceivingMessage :: bool
  onErrorVisibilityTimeout :: bool
  onErrorProccessMessage :: bool
  onErrorConfiguration :: bool
  onErrorTemporary :: bool

definition constructor :: "Options \<Rightarrow> Manager_fields" where
  "constructor opts = \<lparr>
     MaxNumberOfMessages = js_or (opt_MaxNumberOfMessages opts) 10,
     WaitTimeSeconds = js_or (opt_WaitTimeSeconds opts) 20,
     VisibilityTimeout = js_or (opt_VisibilityTimeout opts) 30,
     heartbeatInterval = js_or (opt_heartbeatInterval opts)
       (case opt_VisibilityTimeout opts of
          None \<Rightarrow> 15
        | Some v \<Rightarrow> if v = 0 then 15 else v div 2),
     timeoutTemporaryError = js_or (opt_timeoutTemporaryError opts) 5000,
     onErrorReceivingMessage = opt_onErrorReceivingMessage opts,
     onErrorVisibilityTimeout = opt_onErrorVisibilityTimeout opts,
     onErrorProccessMessage = opt_onErrorProccessMessage opts,
     onErrorConfiguration = opt_onErrorConfiguration opts,
     onErrorTemporary = opt_onErrorTemporary opts \<rparr>"

section \<open>Manager: one message's lifecycle\<close>

text \<open>
  \<open>processMessageWithVisibilityHeartbeat\<close>. The lifecycle is awaiting the handler
  (\<open>InHandler\<close>), awaiting the delete call (\<open>InDelete\<close>) or has returned
  (\<open>Settled\<close>). \<open>timer_armed\<close> says that Node's interval is live; \<open>heartbeatTimer\<close>
  says that the variable of that name is not \<open>null\<close> (the \<open>catch\<close> of
  \<open>extendVisibility\<close> clears the interval without resetting the variable).
  \<open>inflight\<close> counts the extension calls that have been sent and have not settled.
  A callback is taken to return, as its type \<open>Promise<void>\<close> says; its promise is not
  awaited by the code.
\<close>

datatype pphase = InHandler | InDelete | Settled

datatype pevent =
    Tick
  | ExtendOk
  | ExtendFail SdkError
  | HandlerResolve
  | HandlerReject SdkError
  | DeleteOk
  | DeleteFail SdkError

record proc =
  handle :: string
  phase :: pphase
  timer_armed :: bool
  heartbeatTimer :: bool
  inflight :: nat

definition call_if :: "bool \<Rightarrow> 'a \<Rightarrow> 'a list" where
  "call_if present a = (if present then [a] else [])"

text \<open>The synchronous part of the call, up to \<open>await this.handler(msg)\<close>.\<close>

definition processMessageWithVisibilityHeartbeat ::
  "Manager_fields \<Rightarrow> Message \<Rightarrow> proc \<times> action list" where
  "processMessageWithVisibilityHeartbeat this msg =
     (if \<not> truthy (ReceiptHandle msg)
      then (\<lparr>handle = [], phase = Settled, timer_armed = False,
             heartbeatTimer = False, inflight = 0\<rparr>, [])
      else (\<lparr>handle = (case ReceiptHandle msg of None \<Rightarrow> [] | Some h \<Rightarrow> h),
             phase = InHandler, timer_armed = True,
             heartbeatTimer = True, inflight = 0\<rparr>,
            [SetInterval (heartbeatInterval this * 1000), CallHandler]))"

text \<open>The \<open>finally\<close> block, after which the call returns.\<close>

definition finally_block :: "proc \<Rightarrow> proc \<times> action list" where
  "finally_block p =
     (if heartbeatTimer p
      then (p\<lparr>phase := Settled, timer_armed := False, heartbeatTimer := False\<rparr>,
            [ClearInterval])
      else (p\<lparr>phase := Settled\<rparr>, []))"

text \<open>The \<open>catch\<close> block followed by the \<open>finally\<close> block.\<close>

definition catch_block :: "Manager_fields \<Rightarrow> SdkError \<Rightarrow> proc \<Rightarrow> proc \<times> action list" where
  "catch_block this e p =
     (let (p', acts) = finally_block p
      in (p', call_if (onErrorProccessMessage this) (Call_onErrorProccessMessage e) @ acts))"

text \<open>The \<open>catch\<close> of \<open>extendVisibility\<close>, run when an extension call fails.\<close>

definition extend_failed :: "Manager_fields \<Rightarrow> SdkError \<Rightarrow> proc \<Rightarrow> proc \<times> action list" where
  "extend_failed this e p =
     (let cb = call_if (onErrorVisibilityTimeout this) (Call_onErrorVisibilityTimeout e)
      in if heartbeatTimer p
         then (p\<lparr>inflight := inflight p - 1, timer_armed := False\<rparr>, ClearInterval # cb)
         else (p\<lparr>inflight := inflight p - 1\<rparr>, cb))"

fun pstep :: "Manager_fields \<Rightarrow> pevent \<Rightarrow> proc \<Rightarrow> proc \<times> action list" where
  "pstep this Tick p =
     (if timer_armed p
      then (p\<lparr>inflight := inflight p + 1\<rparr>, [SendChangeVisibility (handle p)])
      else (p, []))"
| "pstep this ExtendOk p =
     (if 0 < inflight p then (p\<lparr>inflight := inflight p - 1\<rparr>, []) else (p, []))"
| "pstep this (ExtendFail e) p =
     (if 0 < inflight p then extend_failed this e p else (p, []))"
| "pstep this HandlerResolve p =
     (if phase p = InHandler then (p\<lparr>phase := InDelete\<rparr>, [SendDelete (handle p)])
      else (p, []))"
| "pstep this (HandlerReject e) p =
     (if phase p = InHandler then catch_block this e p else (p, []))"
| "pstep this DeleteOk p =
     (if phase p = InDelete then finally_block p else (p, []))"
| "pstep this (DeleteFail e) p =
     (if phase p = InDelete then catch_block this e p else (p, []))"

text \<open>A lifecycle under a schedule of events, with everything it has done so far.\<close>

fun prun :: "Manager_fields \<Rightarrow> pevent list \<Rightarrow> proc \<times> action list \<Rightarrow> proc \<times> action list" where
  "prun this [] s = s"
| "prun this (ev # evs) (p, tr) =
     (let (p', acts) = pstep this ev p in prun this evs (p', tr @ acts))"

definition lifecycle :: "Manager_fields \<Rightarrow> Message \<Rightarrow> pevent list \<Rightarrow> proc \<times> action list" where
  "lifecycle this msg evs = prun this evs (processMessageWithVisibilityHeartbeat this msg)"

section \<open>Manager: the receive loop\<close>

text \<open>
  \<open>loop\<close>, \<open>receiveMessage\<close> and \<open>stop\<close>, for a newly constructed \<open>Manager\<close> on
  which \<open>start()\<close> is called once and never again; the next section lifts that
  restriction, and \<open>single_start_is_the_loop\<close> shows that this loop is what the
  object does then. The loop is awaiting the receive call
  (\<open>Receiving\<close>), awaiting \<open>Promise.allSettled\<close> of the batch (\<open>Processing\<close>),
  awaiting the timeout after a temporary error (\<open>Backoff\<close>), awaiting \<open>this.stop()\<close>
  inside \<open>receiveMessage\<close> (\<open>Blocked\<close>), or has left the \<open>while\<close> and resolved the
  shutdown promise (\<open>Exited\<close>). \<open>procs\<close> holds every lifecycle started so far, in order
  of dispatch; \<open>stop_pending\<close> says that a caller of \<open>stop()\<close> is awaiting the shutdown
  promise.
\<close>

datatype lphase = Receiving | Processing | Backoff | Blocked | Exited

datatype maction =
    SendReceive
  | Proc nat action
  | Call_onErrorReceivingMessage SdkError
  | Call_onErrorConfiguration SdkError
  | Call_onErrorTemporary SdkError
  | SetTimeout int
  | ResolveShutdown
  | StopResolved

datatype mevent =
    StopCalled
  | ReceiveOk "Message list"
  | ReceiveFail SdkError
  | TimeoutElapsed
  | ProcEvent nat pevent

record manager =
  running :: bool
  loop_phase :: lphase
  procs :: "proc list"
  stop_pending :: bool

definition isQueueNonExistent :: "SdkError \<Rightarrow> bool" where
  "isQueueNonExistent e =
     (Code e = Some ''AWS.SimpleQueueService.NonExistentQueue'' \<or>
      dunder_type e = Some ''com.amazonaws.sqs#QueueDoesNotExist'')"

definition isInvalidCredentials :: "SdkError \<Rightarrow> bool" where
  "isInvalidCredentials e =
     (Code e = Some ''InvalidClientTokenId'' \<or>
      dunder_type e = Some ''com.amazon.coral.service#UnrecognizedClientException'')"

text \<open>
  The first \<open>start()\<close> on a new \<open>Manager\<close>: the flag is set and the loop runs up to
  its first receive call. What \<open>start()\<close> does in general (its test of \<open>running\<close>,
  the replaced promise, one more loop) is \<open>e_start\<close> in the next section.
\<close>

definition start :: "manager \<times> maction list" where
  "start = (\<lparr>running = True, loop_phase = Receiving, procs = [], stop_pending = False\<rparr>,
            [SendReceive])"

text \<open>\<open>stop()\<close> called from outside the loop.\<close>

definition stop :: "manager \<Rightarrow> manager" where
  "stop m = (if \<not> running m then m else m\<lparr>running := False, stop_pending := True\<rparr>)"

text \<open>
  \<open>receiveMessage\<close> has returned: the \<open>while\<close> test of \<open>loop\<close>, then either the next
  receive call or \<open>resolveShutdown()\<close>, which lets a pending \<open>stop()\<close> return.
\<close>

definition loop_next :: "manager \<Rightarrow> manager \<times> maction list" where
  "loop_next m =
     (if running m then (m\<lparr>loop_phase := Receiving\<rparr>, [SendReceive])
      else (m\<lparr>loop_phase := Exited, stop_pending := False\<rparr>,
            ResolveShutdown # call_if (stop_pending m) StopResolved))"

definition all_settled :: "manager \<Rightarrow> bool" where
  "all_settled m = list_all (\<lambda>p. phase p = Settled) (procs m)"

text \<open>The \<open>try\<close> block after the receive call has returned \<open>msgs\<close>.\<close>

definition dispatch :: "Manager_fields \<Rightarrow> Message list \<Rightarrow> manager \<Rightarrow> manager \<times> maction list" where
  "dispatch this msgs m =
     (let started = map (processMessageWithVisibilityHeartbeat this) msgs;
          acts = concat (map (\<lambda>(i, (p, as)). map (Proc i) as)
                   (enumerate (length (procs m)) started));
          m' = m\<lparr>procs := procs m @ map fst started\<rparr>
      in if all_settled m'
         then (let (m'', more) = loop_next m' in (m'', acts @ more))
         else (m'\<lparr>loop_phase := Processing\<rparr>, acts))"

text \<open>The \<open>catch\<close> block of \<open>receiveMessage\<close>.\<close>

definition receive_failed :: "Manager_fields \<Rightarrow> SdkError \<Rightarrow> manager \<Rightarrow> manager \<times> maction list" where
  "receive_failed this e m =
     (let cb = call_if (onErrorReceivingMessage this) (Call_onErrorReceivingMessage e)
      in if isQueueNonExistent e \<or> isInvalidCredentials e
         then (let cbc = call_if (onErrorConfiguration this) (Call_onErrorConfiguration e)
               in if running m
                  then (m\<lparr>running := False, loop_phase := Blocked\<rparr>, cb @ cbc)
                  else (let (m', more) = loop_next m in (m', cb @ cbc @ more)))
         else if running m
         then (m\<lparr>loop_phase := Backoff\<rparr>,
               cb @ call_if (onErrorTemporary this) (Call_onErrorTemporary e)
                  @ [SetTimeout (timeoutTemporaryError this)])
         else (let (m', more) = loop_next m in (m', cb @ more)))"

text \<open>An event of lifecycle \<open>i\<close>; the last one of a batch to return resumes the loop.\<close>

definition proc_event :: "Manager_fields \<Rightarrow> nat \<Rightarrow> pevent \<Rightarrow> manager \<Rightarrow> manager \<times> maction list" where
  "proc_event this i ev m =
     (if i < length (procs m)
      then (let (p', as) = pstep this ev (procs m ! i);
                m' = m\<lparr>procs := (procs m)[i := p']\<rparr>
            in if loop_phase m = Processing \<and> all_settled m'
               then (let (m'', more) = loop_next m' in (m'', map (Proc i) as @ more))
               else (m', map (Proc i) as))
      else (m, []))"

fun mstep :: "Manager_fields \<Rightarrow> mevent \<Rightarrow> manager \<Rightarrow> manager \<times> maction list" where
  "mstep this StopCalled m = (stop m, [])"
| "mstep this (ReceiveOk msgs) m =
     (if loop_phase m = Receiving then dispatch this msgs m else (m, []))"
| "mstep this (ReceiveFail e) m =
     (if loop_phase m = Receiving then receive_failed this e m else (m, []))"
| "mstep this TimeoutElapsed m =
     (if loop_phase m = Backoff then loop_next m else (m, []))"
| "mstep this (ProcEvent i ev) m = proc_event this i ev m"

fun mrun :: "Manager_fields \<Rightarrow> mevent list \<Rightarrow> manager \<times> maction list \<Rightarrow> manager \<times> maction list" where
  "mrun this [] s = s"
| "mrun this (ev # evs) (m, tr) =
     (let (m', acts) = mstep this ev m in mrun this evs (m', tr @ acts))"

section \<open>Manager: start and stop over the life of the object\<close>

text \<open>
  The loop above follows one \<open>start()\<close>. Here \<open>start()\<close> and \<open>stop()\<close> are events that
  may come at any time, as the class allows. \<open>start()\<close> returns when \<open>running\<close> holds;
  otherwise it sets the flag, replaces \<open>shutdownPromise\<close> and \<open>resolveShutdown\<close> by
  those of a new promise, and launches one more \<open>loop()\<close>, whether or not an earlier
  loop is still on its way out. All loops read the one flag, and a loop that ends calls
  the resolver that is current at that moment. Promises are numbered in the order of
  their creation: \<open>current\<close> is the number of the promise held by the two fields (0 for
  \<open>null\<close>), \<open>resolved\<close> lists those that have been resolved, and \<open>stop_waiting\<close> lists,
  for each \<open>stop()\<close> that has not returned, the promise it awaits. A loop that awaits
  \<open>this.stop()\<close> inside \<open>receiveMessage\<close> records the promise in \<open>awaits\<close> and resumes,
  by an event of its own, once that promise has been resolved. \<open>lifecycles\<close> holds every
  lifecycle started so far with the number of the loop that dispatched it.
\<close>

datatype eevent =
    EStart
  | EStop
  | EReceiveOk nat "Message list"
  | EReceiveFail nat SdkError
  | ETimeout nat
  | EProc nat pevent
  | EResume nat

record eloop =
  e_phase :: lphase
  awaits :: nat

record engine =
  e_running :: bool
  current :: nat
  resolved :: "nat list"
  stop_waiting :: "nat list"
  loops :: "eloop list"
  lifecycles :: "(nat \<times> proc) list"

definition new_manager :: engine where
  "new_manager = \<lparr>e_running = False, current = 0, resolved = [], stop_waiting = [],
                   loops = [], lifecycles = []\<rparr>"

definition set_phase :: "nat \<Rightarrow> lphase \<Rightarrow> engine \<Rightarrow> engine" where
  "set_phase i ph g = g\<lparr>loops := (loops g)[i := (loops g ! i)\<lparr>e_phase := ph\<rparr>]\<rparr>"

text \<open>
  \<open>resolveShutdown()\<close>: the current promise is resolved, and every \<open>stop()\<close> that awaits
  it returns. Resolving a promise again does nothing.
\<close>

definition resolveShutdown :: "engine \<Rightarrow> engine \<times> maction list" where
  "resolveShutdown g =
     (if current g \<in> set (resolved g) then (g, [ResolveShutdown])
      else (g\<lparr>resolved := current g # resolved g,
              stop_waiting := filter (\<lambda>pr. pr \<noteq> current g) (stop_waiting g)\<rparr>,
            ResolveShutdown #
              map (\<lambda>pr. StopResolved) (filter (\<lambda>pr. pr = current g) (stop_waiting g))))"

text \<open>\<open>start()\<close>.\<close>

definition e_start :: "engine \<Rightarrow> engine \<times> maction list" where
  "e_start g =
     (if e_running g then (g, [])
      else (g\<lparr>e_running := True, current := Suc (length (loops g)),
              loops := loops g @ [\<lparr>e_phase = Receiving, awaits = 0\<rparr>]\<rparr>,
            [SendReceive]))"

text \<open>\<open>stop()\<close> called from outside the loops.\<close>

definition e_stop :: "engine \<Rightarrow> engine \<times> maction list" where
  "e_stop g =
     (if \<not> e_running g then (g, [])
      else if current g \<in> set (resolved g) then (g\<lparr>e_running := False\<rparr>, [StopResolved])
      else (g\<lparr>e_running := False, stop_waiting := stop_waiting g @ [current g]\<rparr>, []))"

text \<open>\<open>receiveMessage\<close> of loop \<open>i\<close> has returned: the \<open>while\<close> test and what follows.\<close>

definition e_loop_next :: "nat \<Rightarrow> engine \<Rightarrow> engine \<times> maction list" where
  "e_loop_next i g =
     (if e_running g then (set_phase i Receiving g, [SendReceive])
      else resolveShutdown (set_phase i Exited g))"

definition settled_of :: "nat \<Rightarrow> engine \<Rightarrow> bool" where
  "settled_of i g = list_all (\<lambda>(owner, p). owner = i \<longrightarrow> phase p = Settled) (lifecycles g)"

definition e_dispatch ::
  "Manager_fields \<Rightarrow> nat \<Rightarrow> Message list \<Rightarrow> engine \<Rightarrow> engine \<times> maction list" where
  "e_dispatch this i msgs g =
     (let started = map (processMessageWithVisibilityHeartbeat this) msgs;
          acts = concat (map (\<lambda>(j, (p, as)). map (Proc j) as)
                   (enumerate (length (lifecycles g)) started));
          g' = g\<lparr>lifecycles := lifecycles g @ map (\<lambda>(p, as). (i, p)) started\<rparr>
      in if settled_of i g'
         then (let (g'', more) = e_loop_next i g' in (g'', acts @ more))
         else (set_phase i Processing g', acts))"

text \<open>
  The \<open>catch\<close> block of \<open>receiveMessage\<close> in loop \<open>i\<close>, with the body of \<open>stop()\<close> at
  the place of the call.
\<close>

definition e_receive_failed ::
  "Manager_fields \<Rightarrow> nat \<Rightarrow> SdkError \<Rightarrow> engine \<Rightarrow> engine \<times> maction list" where
  "e_receive_failed this i e g =
     (let cb = call_if (onErrorReceivingMessage this) (Call_onErrorReceivingMessage e)
      in if isQueueNonExistent e \<or> isInvalidCredentials e
         then (let cbc = call_if (onErrorConfiguration this) (Call_onErrorConfiguration e)
               in if e_running g \<and> current g \<notin> set (resolved g)
                  then (g\<lparr>e_running := False,
                          loops := (loops g)[i := \<lparr>e_phase = Blocked, awaits = current g\<rparr>]\<rparr>,
                        cb @ cbc)
                  else (let (g', more) = e_loop_next i (g\<lparr>e_running := False\<rparr>)
                        in (g', cb @ cbc @ more)))
         else if e_running g
         then (set_phase i Backoff g,
               cb @ call_if (onErrorTemporary this) (Call_onErrorTemporary e)
                  @ [SetTimeout (timeoutTemporaryError this)])
         else (let (g', more) = e_loop_next i g in (g', cb @ more)))"

definition e_proc_event ::
  "Manager_fields \<Rightarrow> nat \<Rightarrow> pevent \<Rightarrow> engine \<Rightarrow> engine \<times> maction list" where
  "e_proc_event this j ev g =
     (if j < length (lifecycles g)
      then (let owner = fst (lifecycles g ! j);
                (p', as) = pstep this ev (snd (lifecycles g ! j));
                g' = g\<lparr>lifecycles := (lifecycles g)[j := (owner, p')]\<rparr>
            in if e_phase (loops g ! owner) = Processing \<and> settled_of owner g'
               then (let (g'', more) = e_loop_next owner g' in (g'', map (Proc j) as @ more))
               else (g', map (Proc j) as))
      else (g, []))"

fun estep :: "Manager_fields \<Rightarrow> eevent \<Rightarrow> engine \<Rightarrow> engine \<times> maction list" where
  "estep this EStart g = e_start g"
| "estep this EStop g = e_stop g"
| "estep this (EReceiveOk i msgs) g =
     (if i < length (loops g) \<and> e_phase (loops g ! i) = Receiving
      then e_dispatch this i msgs g else (g, []))"
| "estep this (EReceiveFail i e) g =
     (if i < length (loops g) \<and> e_phase (loops g ! i) = Receiving
      then e_receive_failed this i e g else (g, []))"
| "estep this (ETimeout i) g =
     (if i < length (loops g) \<and> e_phase (loops g ! i) = Backoff
      then e_loop_next i g else (g, []))"
| "estep this (EProc j ev) g = e_proc_event this j ev g"
| "estep this (EResume i) g =
     (if i < length (loops g) \<and> e_phase (loops g ! i) = Blocked
         \<and> awaits (loops g ! i) \<in> set (resolved g)
      then e_loop_next i g else (g, []))"

fun erun :: "Manager_fields \<Rightarrow> eevent list \<Rightarrow> engine \<times> maction list \<Rightarrow> engine \<times> maction list" where
  "erun this [] st = st"
| "erun this (ev # evs) (g, tr) =
     (let (g', acts) = estep this ev g in erun this evs (g', tr @ acts))"

text \<open>
  The events of the loop above, as events of the first loop of the object, and the state
  of the loop above read off an object that has been started once.
\<close>

fun lift :: "mevent \<Rightarrow> eevent" where
  "lift StopCalled = EStop"
| "lift (ReceiveOk msgs) = EReceiveOk 0 msgs"
| "lift (ReceiveFail e) = EReceiveFail 0 e"
| "lift TimeoutElapsed = ETimeout 0"
| "lift (ProcEvent j ev) = EProc j ev"

definition one_loop :: "engine \<Rightarrow> manager" where
  "one_loop g = \<lparr>running = e_running g, loop_phase = e_phase (loops g ! 0),
                 procs = map snd (lifecycles g), stop_pending = (stop_waiting g \<noteq> [])\<rparr>"

text \<open>What holds of an object on which \<open>start()\<close> has taken effect once.\<close>

definition started_once :: "engine \<Rightarrow> bool" where
  "started_once g =
     (length (loops g) = 1 \<and> current g = 1 \<and>
      list_all (\<lambda>(owner, p). owner = 0) (lifecycles g) \<and>
      (stop_waiting g = [] \<or> stop_waiting g = [1]) \<and>
      (if e_phase (loops g ! 0) = Exited then resolved g = [1] \<and> stop_waiting g = []
       else resolved g = []) \<and>
      (e_running g \<longrightarrow> stop_waiting g = [] \<and> e_phase (loops g ! 0) \<noteq> Exited))"

section \<open>SQSManager: the poll loop of listen\<close>

text \<open>
  \<open>listen\<close> for one subscriber. \<open>awaiting\<close> says that \<open>poll\<close> is suspended on a
  receive call. An error given to the subscriber closes it, which runs the teardown
  returned by the subscribe function.
\<close>

datatype laction =
    LSendReceive
  | SubscriberNext Message
  | SubscriberError SdkError
  | ClearDeleteInterval
  | CallFlushBatchDelete

datatype levent =
    LReceiveOk "Message list"
  | LReceiveFail SdkError
  | Unsubscribe

record listener =
  isListening :: bool
  closed :: bool
  awaiting :: bool

definition teardown :: "listener \<Rightarrow> listener \<times> laction list" where
  "teardown l = (l\<lparr>isListening := False, closed := True\<rparr>,
                 [ClearDeleteInterval, CallFlushBatchDelete])"

text \<open>The \<open>while\<close> test of \<open>poll\<close> and, when it holds, the next receive call.\<close>

definition poll_next :: "listener \<Rightarrow> listener \<times> laction list" where
  "poll_next l =
     (if isListening l \<and> \<not> closed l then (l\<lparr>awaiting := True\<rparr>, [LSendReceive])
      else (l\<lparr>awaiting := False\<rparr>, []))"

definition subscribe :: "listener \<times> laction list" where
  "subscribe = poll_next \<lparr>isListening = True, closed = False, awaiting = False\<rparr>"

fun lstep :: "levent \<Rightarrow> listener \<Rightarrow> listener \<times> laction list" where
  "lstep (LReceiveOk msgs) l =
     (if awaiting l
      then (let (l', acts) = poll_next l
            in (l', (if closed l then [] else map SubscriberNext msgs) @ acts))
      else (l, []))"
| "lstep (LReceiveFail e) l =
     (if awaiting l
      then (if closed l then (l\<lparr>isListening := False, awaiting := False\<rparr>, [])
            else (let (l', acts) = teardown l
                  in (l'\<lparr>isListening := False, awaiting := False\<rparr>, SubscriberError e # acts)))
      else (l, []))"
| "lstep Unsubscribe l = (if closed l then (l, []) else teardown l)"

fun lrun :: "levent list \<Rightarrow> listener \<times> laction list \<Rightarrow> listener \<times> laction list" where
  "lrun [] s = s"
| "lrun (ev # evs) (l, tr) = (let (l', acts) = lstep ev l in lrun evs (l', tr @ acts))"

section \<open>SQSManager: the delete buffer\<close>

text \<open>
  \<open>deleteBuffer\<close> with \<open>addToDeleteBatch\<close> and \<open>flushBatchDelete\<close>. \<open>outstanding\<close>
  holds the batches whose \<open>DeleteMessageBatch\<close> call has been sent and has not settled;
  the events are a finished message handed over, the five-second interval, and the
  settlement of the \<open>i\<close>-th outstanding call.
\<close>

type_synonym entry = "string \<times> string"

record batcher =
  deleteBuffer :: "entry list"
  outstanding :: "entry list list"

datatype baction = SendDeleteBatch "entry list"

datatype bevent =
    Add Message
  | IntervalFlush
  | BatchOk nat
  | BatchFail nat

definition flushBatchDelete :: "batcher \<Rightarrow> batcher \<times> baction list" where
  "flushBatchDelete b =
     (if length (deleteBuffer b) = 0 then (b, [])
      else (let batch = take 10 (deleteBuffer b)
            in (b\<lparr>deleteBuffer := drop 10 (deleteBuffer b),
                  outstanding := outstanding b @ [batch]\<rparr>,
                [SendDeleteBatch batch])))"

definition push_entry :: "batcher \<Rightarrow> Message \<Rightarrow> batcher" where
  "push_entry b message =
     b\<lparr>deleteBuffer := deleteBuffer b @
         [(case MessageId message of None \<Rightarrow> [] | Some i \<Rightarrow> i,
           case ReceiptHandle message of None \<Rightarrow> [] | Some h \<Rightarrow> h)]\<rparr>"

definition addToDeleteBatch :: "batcher \<Rightarrow> Message \<Rightarrow> batcher \<times> baction list" where
  "addToDeleteBatch b message =
     (if \<not> truthy (MessageId message) \<or> \<not> truthy (ReceiptHandle message) then (b, [])
      else (let b' = push_entry b message
            in if 10 \<le> length (deleteBuffer b') then flushBatchDelete b' else (b', [])))"

text \<open>The \<open>i\<close>-th outstanding call settles; the \<open>catch\<close> puts a failed batch back in front.\<close>

definition batch_settled :: "bool \<Rightarrow> nat \<Rightarrow> batcher \<Rightarrow> batcher" where
  "batch_settled ok i b =
     (if i < length (outstanding b)
      then (let rest = take i (outstanding b) @ drop (Suc i) (outstanding b)
            in if ok then b\<lparr>outstanding := rest\<rparr>
               else b\<lparr>deleteBuffer := (outstanding b ! i) @ deleteBuffer b,
                      outstanding := rest\<rparr>)
      else b)"

fun bstep :: "bevent \<Rightarrow> batcher \<Rightarrow> batcher \<times> baction list" where
  "bstep (Add message) b = addToDeleteBatch b message"
| "bstep IntervalFlush b = flushBatchDelete b"
| "bstep (BatchOk i) b = (batch_settled True i b, [])"
| "bstep (BatchFail i) b = (batch_settled False i b, [])"

fun brun :: "bevent list \<Rightarrow> batcher \<times> baction list \<Rightarrow> batcher \<times> baction list" where
  "brun [] s = s"
| "brun (ev # evs) (b, tr) = (let (b', acts) = bstep ev b in brun evs (b', tr @ acts))"

definition empty_batcher :: "batcher \<times> baction list" where
  "empty_batcher = (\<lparr>deleteBuffer = [], outstanding = []\<rparr>, [])"

section \<open>SQSManager: the inner observable of one message\<close>

text \<open>
  The inner observable that the projection given to \<open>mergeMap\<close> builds for one
  message, from the moment \<open>mergeMap\<close> subscribes it (whether and when it does is
  part of the stream, further down). \<open>handler(message)\<close> is called once, in the
  subscribe function; \<open>from\<close> wraps the promise it returned, so a resubscription by
  \<open>retry\<close> observes the same promise again. The chain is awaiting that promise
  (\<open>Pending\<close>), awaiting the timer that the delay function returned
  (\<open>Delaying\<close>), or has terminated and run the \<open>finalize\<close> callback
  (\<open>Finished\<close>). When the handler call throws instead of returning a promise, the
  subscribe function is left before \<open>from\<close>, \<open>retry\<close> and \<open>finalize\<close> exist:
  the observable errors with the interval already set and nothing will ever stop it
  (\<open>Crashed\<close>).

  The behaviour of the rxjs operators is taken from the library: \<open>retry\<close> keeps a
  counter \<open>soFar\<close>, on an error tests \<open>soFar++ < count\<close> and calls
  \<open>delay(err, soFar)\<close> with the incremented counter, so the first retry has
  \<open>retryCount = 1\<close>; otherwise it passes the error on. \<open>finalize\<close> runs its callback
  after the completion or the error has been passed downstream. \<open>Math.random()\<close> is a
  real number \<open>rnd\<close> carried by the event that makes the code draw it.
\<close>

record pm_args =
  concurrency :: int
  maxRetries :: int
  baseDelay :: int
  visibilityTimeout :: int
  visibilityInterval :: int

definition default_args :: pm_args where
  "default_args = \<lparr>concurrency = 10, maxRetries = 5, baseDelay = 1000,
                    visibilityTimeout = 30, visibilityInterval = 15000\<rparr>"

datatype sphase = Pending | Delaying SdkError | Finished | Crashed

text \<open>What the call \<open>handler(message)\<close> does: return a promise, or throw.\<close>

datatype handler_call = ReturnsPromise | Throws SdkError

datatype sevent =
    STick
  | SExtendOk
  | SExtendFail SdkError
  | PromiseResolved
  | PromiseRejected SdkError real
  | RetryTimerFired real

record sproc =
  shandle :: string
  sphase :: sphase
  soFar :: nat
  visibilityExtender :: bool
  extender_armed :: bool
  sinflight :: nat

text \<open>
  The delay function given to \<open>retry\<close>. The numbers are integers and the products
  exact: a \<open>baseDelay\<close> or a \<open>maxRetries\<close> with a fraction, and powers beyond the
  range of a double, are left out.
\<close>

definition backoff :: "int \<Rightarrow> nat \<Rightarrow> int" where
  "backoff bd retryCount = bd * 2 ^ retryCount"

definition jitter :: "int \<Rightarrow> nat \<Rightarrow> real \<Rightarrow> int" where
  "jitter bd retryCount rnd = \<lfloor>rnd * real_of_int (backoff bd retryCount)\<rfloor>"

text \<open>
  The subscribe function of the inner observable: \<open>startVisibilityExtender\<close>, then
  \<open>handler(message)\<close>, then the subscription of the chain. An error thrown by the
  handler call is caught by \<open>Observable.subscribe\<close> and given to the subscriber.
\<close>

definition inner_observable ::
  "pm_args \<Rightarrow> handler_call \<Rightarrow> Message \<Rightarrow> sproc \<times> action list" where
  "inner_observable args call message =
     (\<lparr>shandle = (case ReceiptHandle message of None \<Rightarrow> [] | Some h \<Rightarrow> h),
       sphase = (case call of ReturnsPromise \<Rightarrow> Pending | Throws e \<Rightarrow> Crashed),
       soFar = 0,
       visibilityExtender = truthy (ReceiptHandle message),
       extender_armed = truthy (ReceiptHandle message),
       sinflight = 0\<rparr>,
      call_if (truthy (ReceiptHandle message)) (SetInterval (visibilityInterval args))
        @ CallHandler # (case call of ReturnsPromise \<Rightarrow> [] | Throws e \<Rightarrow> [Error e]))"

text \<open>The \<open>finalize\<close> callback: \<open>stopVisibilityExtender\<close>, then \<open>addToDeleteBatch\<close>.\<close>

definition finalize :: "sproc \<Rightarrow> sproc \<times> action list" where
  "finalize p = (p\<lparr>sphase := Finished, extender_armed := False\<rparr>,
                 call_if (visibilityExtender p) ClearInterval @ [AddToDeleteBatch])"

text \<open>The error handler of \<open>retry\<close>.\<close>

definition retry_error :: "pm_args \<Rightarrow> SdkError \<Rightarrow> real \<Rightarrow> sproc \<Rightarrow> sproc \<times> action list" where
  "retry_error args e rnd p =
     (if int (soFar p) < maxRetries args
      then (p\<lparr>soFar := soFar p + 1, sphase := Delaying e\<rparr>,
            [RetryTimer (jitter (baseDelay args) (soFar p + 1) rnd)])
      else (let (p', acts) = finalize (p\<lparr>soFar := soFar p + 1\<rparr>) in (p', Error e # acts)))"

fun sstep :: "pm_args \<Rightarrow> sevent \<Rightarrow> sproc \<Rightarrow> sproc \<times> action list" where
  "sstep args STick p =
     (if extender_armed p
      then (p\<lparr>sinflight := sinflight p + 1\<rparr>, [SendChangeVisibility (shandle p)])
      else (p, []))"
| "sstep args SExtendOk p =
     (if 0 < sinflight p then (p\<lparr>sinflight := sinflight p - 1\<rparr>, []) else (p, []))"
| "sstep args (SExtendFail e) p =
     (if 0 < sinflight p then (p\<lparr>sinflight := sinflight p - 1\<rparr>, []) else (p, []))"
| "sstep args PromiseResolved p =
     (if sphase p = Pending
      then (let (p', acts) = finalize p in (p', Next # Complete # acts))
      else (p, []))"
| "sstep args (PromiseRejected e rnd) p =
     (if sphase p = Pending then retry_error args e rnd p else (p, []))"
| "sstep args (RetryTimerFired rnd) p =
     (case sphase p of Delaying e \<Rightarrow> retry_error args e rnd p | _ \<Rightarrow> (p, []))"

fun srun :: "pm_args \<Rightarrow> sevent list \<Rightarrow> sproc \<times> action list \<Rightarrow> sproc \<times> action list" where
  "srun args [] s = s"
| "srun args (ev # evs) (p, tr) =
     (let (p', acts) = sstep args ev p in srun args evs (p', tr @ acts))"

text \<open>
  The inner observable of a message whose handler call returned a promise, under a
  schedule of its own events.
\<close>

definition pipeline :: "pm_args \<Rightarrow> Message \<Rightarrow> sevent list \<Rightarrow> sproc \<times> action list" where
  "pipeline args message evs = srun args evs (inner_observable args ReturnsPromise message)"

section \<open>SQSManager: the stream of processMessage\<close>

text \<open>
  \<open>processMessage(handler, concurrency, \<dots>)\<close> with one consumer subscribed to the
  observable it returns: the poll loop of \<open>listen\<close>, \<open>mergeMap\<close> with its counter
  \<open>active\<close> and its buffer of messages waiting for a free slot, the inner observables
  subscribed so far (each with its message), the delete buffer, and the five-second
  interval set by the constructor. The handler is a parameter: for each message it says
  whether the call returns a promise or throws; the settlement of the promise is an
  event of the chain.

  The behaviour of \<open>mergeMap\<close> is taken from the library. A value from the source is
  subscribed at once while \<open>active < concurrent\<close> and buffered otherwise; when an inner
  observable completes, \<open>active\<close> is decremented and buffered values are subscribed
  while \<open>active < concurrent\<close>, all of it before the teardown of the completed chain
  (its \<open>finalize\<close> callback) runs; an error of an inner observable is passed to the
  consumer, whose subscriber then unsubscribes the source, which runs the teardown that
  \<open>listen\<close> returned. The subscribe function of the inner observable returns no
  teardown, so unsubscribing the stream does not unsubscribe the chains: they go on, cut
  off from the consumer, and their \<open>finalize\<close> callbacks still run.
\<close>

datatype saction =
    Source laction
  | Chain nat action
  | Sent baction
  | ConsumerNext
  | ConsumerError SdkError

datatype stevent =
    Received "Message list"
  | ReceiveFailed SdkError
  | Unsubscribed
  | ChainEvent nat sevent
  | FlushTimer
  | DeleteBatchOk nat
  | DeleteBatchFailed nat

record stream =
  listen_state :: listener
  active :: nat
  merge_buffer :: "Message list"
  chains :: "(Message \<times> sproc) list"
  batcher_state :: batcher
  deleteInterval :: bool

text \<open>The subscription: \<open>listen\<close> starts to poll; the constructor has set the interval.\<close>

definition processMessage :: "stream \<times> saction list" where
  "processMessage =
     (\<lparr>listen_state = fst subscribe, active = 0, merge_buffer = [], chains = [],
       batcher_state = fst empty_batcher, deleteInterval = True\<rparr>,
      map Source (snd subscribe))"

text \<open>
  The consumer's subscriber unsubscribes: the teardown of \<open>listen\<close> clears the interval
  and flushes the delete buffer once.
\<close>

definition close_stream :: "stream \<Rightarrow> stream \<times> saction list" where
  "close_stream s =
     (if closed (listen_state s) then (s, [])
      else (let (l, lacts) = teardown (listen_state s);
                (b, sent) = flushBatchDelete (batcher_state s)
            in (s\<lparr>listen_state := l, batcher_state := b, deleteInterval := False\<rparr>,
                map Source lacts @ map Sent sent)))"

text \<open>An error reaches the consumer, which ends the stream.\<close>

definition outer_error :: "SdkError \<Rightarrow> stream \<Rightarrow> stream \<times> saction list" where
  "outer_error e s =
     (if closed (listen_state s) then (s, [])
      else (let (s', acts) = close_stream s in (s', ConsumerError e # acts)))"

text \<open>\<open>doInnerSub\<close> of \<open>mergeMap\<close>: count the message in and subscribe its observable.\<close>

definition doInnerSub ::
  "pm_args \<Rightarrow> (Message \<Rightarrow> handler_call) \<Rightarrow> Message \<Rightarrow> stream \<Rightarrow> stream \<times> saction list" where
  "doInnerSub args handler message s =
     (let (p, acts) = inner_observable args (handler message) message;
          s' = s\<lparr>active := active s + 1, chains := chains s @ [(message, p)]\<rparr>
      in case handler message of
           ReturnsPromise \<Rightarrow> (s', map (Chain (length (chains s))) acts)
         | Throws e \<Rightarrow>
             (let (s'', more) = outer_error e s'
              in (s'', map (Chain (length (chains s))) acts @ more)))"

text \<open>\<open>outerNext\<close> of \<open>mergeMap\<close>: a message arrives from \<open>listen\<close>.\<close>

definition outerNext ::
  "pm_args \<Rightarrow> (Message \<Rightarrow> handler_call) \<Rightarrow> Message \<Rightarrow> stream \<Rightarrow> stream \<times> saction list" where
  "outerNext args handler message s =
     (if int (active s) < concurrency args then doInnerSub args handler message s
      else (s\<lparr>merge_buffer := merge_buffer s @ [message]\<rparr>, []))"

text \<open>The \<open>for\<close> loop of \<open>poll\<close> over the messages of one receive call.\<close>

fun deliver ::
  "pm_args \<Rightarrow> (Message \<Rightarrow> handler_call) \<Rightarrow> Message list \<Rightarrow> stream \<Rightarrow> stream \<times> saction list" where
  "deliver args handler [] s = (s, [])"
| "deliver args handler (m # ms) s =
     (if closed (listen_state s) then deliver args handler ms s
      else (let (s', acts) = outerNext args handler m s;
                (s'', more) = deliver args handler ms s'
            in (s'', Source (SubscriberNext m) # acts @ more)))"

text \<open>
  The \<open>while\<close> loop that \<open>mergeMap\<close> runs when an inner observable has completed, over
  the buffered messages.
\<close>

fun drain ::
  "pm_args \<Rightarrow> (Message \<Rightarrow> handler_call) \<Rightarrow> Message list \<Rightarrow> stream \<Rightarrow> stream \<times> saction list" where
  "drain args handler [] s = (s\<lparr>merge_buffer := []\<rparr>, [])"
| "drain args handler (m # ms) s =
     (if int (active s) < concurrency args
      then (let (s', acts) = doInnerSub args handler m (s\<lparr>merge_buffer := ms\<rparr>);
                (s'', more) = drain args handler ms s'
            in (s'', acts @ more))
      else (s\<lparr>merge_buffer := m # ms\<rparr>, []))"

text \<open>What an action of chain \<open>i\<close> does to the rest of the stream.\<close>

fun effect ::
  "pm_args \<Rightarrow> (Message \<Rightarrow> handler_call) \<Rightarrow> nat \<Rightarrow> action \<Rightarrow> stream \<Rightarrow> stream \<times> saction list" where
  "effect args handler i Next s =
     (s, if closed (listen_state s) then [] else [ConsumerNext])"
| "effect args handler i Complete s =
     (if closed (listen_state s) then (s, [])
      else drain args handler (merge_buffer s) (s\<lparr>active := active s - 1\<rparr>))"
| "effect args handler i (Error e) s = outer_error e s"
| "effect args handler i AddToDeleteBatch s =
     (let (b, sent) = addToDeleteBatch (batcher_state s) (fst (chains s ! i))
      in (s\<lparr>batcher_state := b\<rparr>, map Sent sent))"
| "effect args handler i a s = (s, [])"

fun effects ::
  "pm_args \<Rightarrow> (Message \<Rightarrow> handler_call) \<Rightarrow> nat \<Rightarrow> action list \<Rightarrow> stream \<Rightarrow> stream \<times> saction list" where
  "effects args handler i [] s = (s, [])"
| "effects args handler i (a # as) s =
     (let (s', acts) = effect args handler i a s;
          (s'', more) = effects args handler i as s'
      in (s'', Chain i a # acts @ more))"

definition chain_event ::
  "pm_args \<Rightarrow> (Message \<Rightarrow> handler_call) \<Rightarrow> nat \<Rightarrow> sevent \<Rightarrow> stream \<Rightarrow> stream \<times> saction list" where
  "chain_event args handler i ev s =
     (if i < length (chains s)
      then (let (p', acts) = sstep args ev (snd (chains s ! i))
            in effects args handler i acts
                 (s\<lparr>chains := (chains s)[i := (fst (chains s ! i), p')]\<rparr>))
      else (s, []))"

text \<open>The receive call of \<open>poll\<close> returns messages, or fails.\<close>

definition received ::
  "pm_args \<Rightarrow> (Message \<Rightarrow> handler_call) \<Rightarrow> Message list \<Rightarrow> stream \<Rightarrow> stream \<times> saction list" where
  "received args handler msgs s =
     (if awaiting (listen_state s)
      then (let (s', acts) = deliver args handler msgs s;
                (l, lacts) = poll_next (listen_state s')
            in (s'\<lparr>listen_state := l\<rparr>, acts @ map Source lacts))
      else (s, []))"

definition receive_failed_stream :: "SdkError \<Rightarrow> stream \<Rightarrow> stream \<times> saction list" where
  "receive_failed_stream e s =
     (if awaiting (listen_state s)
      then (let (s', acts) = outer_error e s
            in (s'\<lparr>listen_state := (listen_state s')\<lparr>isListening := False, awaiting := False\<rparr>\<rparr>,
                (if closed (listen_state s) then [] else [Source (SubscriberError e)]) @ acts))
      else (s, []))"

fun stream_step ::
  "pm_args \<Rightarrow> (Message \<Rightarrow> handler_call) \<Rightarrow> stevent \<Rightarrow> stream \<Rightarrow> stream \<times> saction list" where
  "stream_step args handler (Received msgs) s = received args handler msgs s"
| "stream_step args handler (ReceiveFailed e) s = receive_failed_stream e s"
| "stream_step args handler Unsubscribed s = close_stream s"
| "stream_step args handler (ChainEvent i ev) s = chain_event args handler i ev s"
| "stream_step args handler FlushTimer s =
     (if deleteInterval s
      then (let (b, sent) = flushBatchDelete (batcher_state s)
            in (s\<lparr>batcher_state := b\<rparr>, map Sent sent))
      else (s, []))"
| "stream_step args handler (DeleteBatchOk i) s =
     (s\<lparr>batcher_state := batch_settled True i (batcher_state s)\<rparr>, [])"
| "stream_step args handler (DeleteBatchFailed i) s =
     (s\<lparr>batcher_state := batch_settled False i (batcher_state s)\<rparr>, [])"

fun stream_run ::
  "pm_args \<Rightarrow> (Message \<Rightarrow> handler_call) \<Rightarrow> stevent list \<Rightarrow> stream \<times> saction list
     \<Rightarrow> stream \<times> saction list" where
  "stream_run args handler [] st = st"
| "stream_run args handler (ev # evs) (s, tr) =
     (let (s', acts) = stream_step args handler ev s
      in stream_run args handler evs (s', tr @ acts))"

section \<open>Reading a trace\<close>

text \<open>
  \<open>stopped_before_ack armed tr\<close>: along \<open>tr\<close>, started with the heartbeat armed or not,
  every ack (a delete call, or the hand-off to the delete buffer) is issued while the
  heartbeat is not armed.
\<close>

fun stopped_before_ack :: "bool \<Rightarrow> action list \<Rightarrow> bool" where
  "stopped_before_ack armed [] = True"
| "stopped_before_ack armed (SetInterval ms # tr) = stopped_before_ack True tr"
| "stopped_before_ack armed (ClearInterval # tr) = stopped_before_ack False tr"
| "stopped_before_ack armed (SendDelete h # tr) = (\<not> armed \<and> stopped_before_ack armed tr)"
| "stopped_before_ack armed (AddToDeleteBatch # tr) = (\<not> armed \<and> stopped_before_ack armed tr)"
| "stopped_before_ack armed (a # tr) = stopped_before_ack armed tr"


text \<open>Whether the heartbeat is armed at the end of a trace.\<close>

fun armed_after :: "bool \<Rightarrow> action list \<Rightarrow> bool" where
  "armed_after armed [] = armed"
| "armed_after armed (SetInterval ms # tr) = armed_after True tr"
| "armed_after armed (ClearInterval # tr) = armed_after False tr"
| "armed_after armed (a # tr) = armed_after armed tr"

text \<open>A schedule in which no extension call fails.\<close>

definition no_extend_failure :: "pevent list \<Rightarrow> bool" where
  "no_extend_failure evs =
     list_all (\<lambda>ev. case ev of ExtendFail e \<Rightarrow> False | _ \<Rightarrow> True) evs"

text \<open>The hand-offs to the delete buffer in a trace.\<close>

fun count_acks :: "action list \<Rightarrow> nat" where
  "count_acks [] = 0"
| "count_acks (AddToDeleteBatch # tr) = Suc (count_acks tr)"
| "count_acks (a # tr) = count_acks tr"

text \<open>A lease-extension call.\<close>

fun is_extension :: "action \<Rightarrow> bool" where
  "is_extension (SendChangeVisibility h) = True"
| "is_extension a = False"



text \<open>The delete calls of a trace, and the errors given to \<open>onErrorProccessMessage\<close>.\<close>

fun deletes :: "action list \<Rightarrow> string list" where
  "deletes [] = []"
| "deletes (SendDelete h # tr) = h # deletes tr"
| "deletes (a # tr) = deletes tr"

fun processing_errors :: "action list \<Rightarrow> SdkError list" where
  "processing_errors [] = []"
| "processing_errors (Call_onErrorProccessMessage e # tr) = e # processing_errors tr"
| "processing_errors (a # tr) = processing_errors tr"

text \<open>The errors given to \<open>onErrorConfiguration\<close>, and the number of receive calls.\<close>

fun configuration_errors :: "maction list \<Rightarrow> SdkError list" where
  "configuration_errors [] = []"
| "configuration_errors (Call_onErrorConfiguration e # tr) = e # configuration_errors tr"
| "configuration_errors (a # tr) = configuration_errors tr"

fun receives :: "maction list \<Rightarrow> nat" where
  "receives [] = 0"
| "receives (SendReceive # tr) = Suc (receives tr)"
| "receives (a # tr) = receives tr"

text \<open>One temporary failure after another, each followed by the end of its wait.\<close>

definition temporary_failures :: "SdkError list \<Rightarrow> mevent list" where
  "temporary_failures es = concat (map (\<lambda>e. [ReceiveFail e, TimeoutElapsed]) es)"

text \<open>A batch as the transport accepts it: between one and ten entries.\<close>

fun batch_ok :: "baction \<Rightarrow> bool" where
  "batch_ok (SendDeleteBatch batch) = (1 \<le> length batch \<and> length batch \<le> 10)"

text \<open>A schedule in which no batch-delete call fails.\<close>

definition no_batch_failure :: "bevent list \<Rightarrow> bool" where
  "no_batch_failure evs =
     list_all (\<lambda>ev. case ev of BatchFail i \<Rightarrow> False | _ \<Rightarrow> True) evs"

text \<open>The batches given to the transport, and the handler calls, in a trace of the stream.\<close>

fun sent_batches :: "saction list \<Rightarrow> entry list list" where
  "sent_batches [] = []"
| "sent_batches (Sent (SendDeleteBatch batch) # tr) = batch # sent_batches tr"
| "sent_batches (a # tr) = sent_batches tr"

fun handler_calls :: "saction list \<Rightarrow> nat" where
  "handler_calls [] = 0"
| "handler_calls (Chain i CallHandler # tr) = Suc (handler_calls tr)"
| "handler_calls (a # tr) = handler_calls tr"


section \<open>Invariants\<close>

text \<open>
  A \<open>Manager\<close> lifecycle that has returned has cleared its interval and reset the
  variable; one that has not returned still holds the timer in the variable.
\<close>

definition pinv :: "proc \<Rightarrow> bool" where
  "pinv p = ((phase p = Settled \<longrightarrow> \<not> timer_armed p \<and> \<not> heartbeatTimer p)
           \<and> (phase p \<noteq> Settled \<longrightarrow> heartbeatTimer p))"

text \<open>In \<open>SQSManager\<close> a live interval is always the one held in \<open>visibilityExtender\<close>.\<close>

definition sinv :: "sproc \<Rightarrow> bool" where
  "sinv p = (extender_armed p \<longrightarrow> visibilityExtender p)"

text \<open>The actions that start or feed a heartbeat.\<close>

fun is_heartbeat :: "action \<Rightarrow> bool" where
  "is_heartbeat (SetInterval ms) = True"
| "is_heartbeat (SendChangeVisibility h) = True"
| "is_heartbeat a = False"

text \<open>A finished chain has handed its message over once; an unfinished one not yet.\<close>

definition ack_inv :: "sproc \<Rightarrow> action list \<Rightarrow> bool" where
  "ack_inv p tr = (if sphase p = Finished
                   then count_acks tr = 1 \<and> \<not> extender_armed p
                   else count_acks tr = 0)"


text \<open>
  While the handler runs nothing has been deleted or reported; while the delete call is
  outstanding exactly that one call has been sent.
\<close>

definition delete_inv :: "proc \<Rightarrow> action list \<Rightarrow> bool" where
  "delete_inv p tr =
     ((phase p = InHandler \<longrightarrow> deletes tr = [] \<and> processing_errors tr = []) \<and>
      (phase p = InDelete \<longrightarrow> deletes tr = [handle p] \<and> processing_errors tr = []))"

text \<open>
  The loop is \<open>halted\<close> when it has exited or is suspended in \<open>await this.stop()\<close>.
  Until it halts, no configuration error has been reported.
\<close>

definition halted :: "manager \<Rightarrow> bool" where
  "halted m = ((loop_phase m = Blocked \<or> loop_phase m = Exited) \<and> \<not> running m)"

definition cfg_inv :: "manager \<Rightarrow> maction list \<Rightarrow> bool" where
  "cfg_inv m tr = ((configuration_errors tr = [] \<or> halted m) \<and>
                   (loop_phase m = Blocked \<or> loop_phase m = Exited \<longrightarrow> \<not> running m))"

text \<open>
  A resolved \<open>stop()\<close> means that the loop has exited, and outside
  \<open>Promise.allSettled\<close> every lifecycle has returned.
\<close>

definition stop_inv :: "manager \<Rightarrow> maction list \<Rightarrow> bool" where
  "stop_inv m tr = ((StopResolved \<in> set tr \<longrightarrow> loop_phase m = Exited) \<and>
                    (loop_phase m \<noteq> Processing \<longrightarrow> all_settled m))"

text \<open>
  A stream that will never send a delete again: it is closed, the interval is cleared,
  no batch is outstanding and no chain is left to hand a message over.
\<close>

definition stranded :: "stream \<Rightarrow> bool" where
  "stranded s =
     (closed (listen_state s) \<and> \<not> deleteInterval s \<and> outstanding (batcher_state s) = [] \<and>
      list_all (\<lambda>(m, p). sphase p = Finished \<or> sphase p = Crashed) (chains s))"


section \<open>Example inputs\<close>

definition example_options :: Options where
  "example_options = \<lparr>
     opt_MaxNumberOfMessages = None, opt_WaitTimeSeconds = None,
     opt_VisibilityTimeout = None, opt_heartbeatInterval = None,
     opt_timeoutTemporaryError = None,
     opt_onErrorReceivingMessage = True, opt_onErrorVisibilityTimeout = True,
     opt_onErrorProccessMessage = True, opt_onErrorConfiguration = True,
     opt_onErrorTemporary = True \<rparr>"

definition example_manager :: Manager_fields where
  "example_manager = constructor example_options"

definition msg_a :: Message where
  "msg_a = \<lparr>MessageId = Some ''m1'', ReceiptHandle = Some ''rh1'', Body = Some ''{}''\<rparr>"

definition msg_no_handle :: Message where
  "msg_no_handle = \<lparr>MessageId = Some ''m2'', ReceiptHandle = None, Body = Some ''{}''\<rparr>"

definition throttled :: SdkError where
  "throttled = \<lparr>Code = Some ''ThrottlingException'', dunder_type = None\<rparr>"

definition queue_missing :: SdkError where
  "queue_missing = \<lparr>Code = Some ''AWS.SimpleQueueService.NonExistentQueue'',
                     dunder_type = None\<rparr>"

definition ten_adds :: "bevent list" where
  "ten_adds = [Add msg_a, Add msg_a, Add msg_a, Add msg_a, Add msg_a,
               Add msg_a, Add msg_a, Add msg_a, Add msg_a, Add msg_a]"

definition promising :: "Message \<Rightarrow> handler_call" where
  "promising message = ReturnsPromise"

definition throwing :: "Message \<Rightarrow> handler_call" where
  "throwing message = Throws throttled"

definition exhausted_run :: "stevent list" where
  "exhausted_run = [Received [msg_a], ChainEvent 0 (PromiseRejected throttled (1/2)),
                    ChainEvent 0 (RetryTimerFired (1/2)), ChainEvent 0 (RetryTimerFired (1/2)),
                    ChainEvent 0 (RetryTimerFired (1/2)), ChainEvent 0 (RetryTimerFired (1/2)),
                    ChainEvent 0 (RetryTimerFired (1/2))]"

definition restart_run :: "eevent list" where
  "restart_run = [EStart, EReceiveOk 0 [msg_a], EStop, EStart, EStop, EReceiveOk 1 []]"

lemmas example_defs =
  example_options_def example_manager_def msg_a_def msg_no_handle_def throttled_def
  queue_missing_def constructor_def js_or_def truthy_def call_if_def default_args_def

lemmas run_defs =
  pipeline_def inner_observable_def finalize_def retry_error_def jitter_def backoff_def

lemmas batch_defs =
  empty_batcher_def addToDeleteBatch_def push_entry_def flushBatchDelete_def
  batch_settled_def Let_def

lemmas stream_defs =
  processMessage_def subscribe_def poll_next_def teardown_def close_stream_def
  outer_error_def doInnerSub_def outerNext_def chain_event_def received_def
  receive_failed_stream_def inner_observable_def finalize_def retry_error_def jitter_def
  backoff_def promising_def throwing_def

lemmas engine_defs =
  new_manager_def e_start_def e_stop_def e_loop_next_def e_dispatch_def settled_of_def
  set_phase_def resolveShutdown_def processMessageWithVisibilityHeartbeat_def

lemmas loop_defs =
  start_def stop_def dispatch_def proc_event_def all_settled_def loop_next_def
  receive_failed_def processMessageWithVisibilityHeartbeat_def catch_block_def
  finally_block_def isQueueNonExistent_def isInvalidCredentials_def

section \<open>Traces and the heartbeat flag\<close>

lemma stopped_before_ack_append:
  "stopped_before_ack a (tr @ acts) =
     (stopped_before_ack a tr \<and> stopped_before_ack (armed_after a tr) acts)"
  by (induction a tr rule: stopped_before_ack.induct) auto

lemma armed_after_append:
  "armed_after a (tr @ acts) = armed_after (armed_after a tr) acts"
  by (induction a tr rule: armed_after.induct) auto

section \<open>SQSManager: the heartbeat is stopped before the hand-off\<close>

lemma retry_error_ok:
  assumes "sinv p" and "retry_error args e rnd p = (p', acts)"
  shows "sinv p' \<and> stopped_before_ack (extender_armed p) acts
         \<and> armed_after (extender_armed p) acts = extender_armed p'"
  using assms
  by (auto simp: retry_error_def finalize_def sinv_def call_if_def split: if_splits)

lemma sstep_ok:
  assumes "sinv p" and "sstep args ev p = (p', acts)"
  shows "sinv p' \<and> stopped_before_ack (extender_armed p) acts
         \<and> armed_after (extender_armed p) acts = extender_armed p'"
proof (cases ev)
  case PromiseResolved
  with assms show ?thesis
    by (auto simp: finalize_def sinv_def call_if_def split: if_splits)
next
  case (PromiseRejected e rnd)
  with assms retry_error_ok[of p args e rnd p' acts] show ?thesis
    by (auto split: if_splits)
next
  case (RetryTimerFired rnd)
  with assms show ?thesis
    by (auto dest: retry_error_ok split: sphase.splits)
qed (use assms in \<open>auto simp: sinv_def split: if_splits\<close>)

lemma srun_ok:
  assumes "sinv p" and "stopped_before_ack False tr"
    and "armed_after False tr = extender_armed p"
    and "srun args evs (p, tr) = (p', tr')"
  shows "sinv p' \<and> stopped_before_ack False tr' \<and> armed_after False tr' = extender_armed p'"
  using assms
proof (induction evs arbitrary: p tr)
  case Nil
  then show ?case by simp
next
  case (Cons ev evs)
  obtain q acts where st: "sstep args ev p = (q, acts)" by (cases "sstep args ev p")
  from sstep_ok[OF Cons.prems(1) st]
  have q: "sinv q" "stopped_before_ack (extender_armed p) acts"
    "armed_after (extender_armed p) acts = extender_armed q" by auto
  have run: "srun args evs (q, tr @ acts) = (p', tr')"
    using Cons.prems(4) st by simp
  show ?case
  proof (rule Cons.IH[OF q(1) _ _ run])
    show "stopped_before_ack False (tr @ acts)"
      using Cons.prems(2,3) q(2) by (simp add: stopped_before_ack_append)
    show "armed_after False (tr @ acts) = extender_armed q"
      using Cons.prems(3) q(3) by (simp add: armed_after_append)
  qed
qed

lemma pipeline_stopped_before_ack:
  "stopped_before_ack False (snd (pipeline args message evs))"
proof -
  obtain p tr where st: "inner_observable args ReturnsPromise message = (p, tr)"
    by (cases "inner_observable args ReturnsPromise message")
  obtain p' tr' where run: "srun args evs (p, tr) = (p', tr')"
    by (cases "srun args evs (p, tr)")
  have "sinv p" "stopped_before_ack False tr" "armed_after False tr = extender_armed p"
    using st by (auto simp: inner_observable_def sinv_def call_if_def split: if_splits)
  from srun_ok[OF this run] show ?thesis
    by (simp add: pipeline_def st run)
qed

section \<open>Manager: the heartbeat is stopped when the lifecycle returns\<close>

lemma pstep_pinv:
  assumes "pinv p" shows "pinv (fst (pstep this ev p))"
  using assms
  by (cases ev)
     (auto simp: pinv_def extend_failed_def catch_block_def finally_block_def Let_def
           split: if_splits)

lemma prun_pinv:
  assumes "pinv p" shows "pinv (fst (prun this evs (p, tr)))"
  using assms
proof (induction evs arbitrary: p tr)
  case Nil
  then show ?case by simp
next
  case (Cons ev evs)
  obtain q acts where st: "pstep this ev p = (q, acts)" by (cases "pstep this ev p")
  have "pinv q" using pstep_pinv[OF Cons.prems, of this ev] st by simp
  from Cons.IH[OF this] show ?case by (simp add: st)
qed

lemma lifecycle_pinv: "pinv (fst (lifecycle this msg evs))"
proof -
  obtain p tr where st: "processMessageWithVisibilityHeartbeat this msg = (p, tr)"
    by (cases "processMessageWithVisibilityHeartbeat this msg")
  have "pinv p"
    using st
    by (auto simp: processMessageWithVisibilityHeartbeat_def pinv_def split: if_splits)
  from prun_pinv[OF this] show ?thesis by (simp add: lifecycle_def st)
qed

lemma prun_armed:
  assumes "phase p \<noteq> Settled \<longrightarrow> timer_armed p" and "no_extend_failure evs"
  shows "phase (fst (prun this evs (p, tr))) \<noteq> Settled
         \<longrightarrow> timer_armed (fst (prun this evs (p, tr)))"
  using assms
proof (induction evs arbitrary: p tr)
  case Nil
  then show ?case by simp
next
  case (Cons ev evs)
  obtain q acts where st: "pstep this ev p = (q, acts)" by (cases "pstep this ev p")
  have nf: "no_extend_failure evs" and ev: "\<And>e. ev \<noteq> ExtendFail e"
    using Cons.prems(2) by (auto simp: no_extend_failure_def)
  have "phase q \<noteq> Settled \<longrightarrow> timer_armed q"
    using Cons.prems(1) st ev
    by (cases ev) (auto simp: catch_block_def finally_block_def Let_def split: if_splits)
  from Cons.IH[OF this nf] show ?case by (simp add: st)
qed

lemma lifecycle_armed:
  assumes "no_extend_failure evs" and "phase (fst (lifecycle this msg evs)) \<noteq> Settled"
  shows "timer_armed (fst (lifecycle this msg evs))"
proof -
  obtain p tr where st: "processMessageWithVisibilityHeartbeat this msg = (p, tr)"
    by (cases "processMessageWithVisibilityHeartbeat this msg")
  have "phase p \<noteq> Settled \<longrightarrow> timer_armed p"
    using st by (auto simp: processMessageWithVisibilityHeartbeat_def split: if_splits)
  from prun_armed[OF this assms(1), of this tr] assms(2) show ?thesis
    by (simp add: lifecycle_def st)
qed

section \<open>The order of heartbeat stop and ack\<close>

text \<open>
  Claim C1, as stated: on every outcome path the heartbeat is stopped strictly before the
  ack is issued. \<open>Manager\<close> does not do so: with the handler resolved and the delete
  call succeeded, the trace is
  \<open>[SetInterval 15000, CallHandler, SendDelete ''rh1'', ClearInterval]\<close>, the delete is
  sent while the interval is armed, and the interval is cleared by the \<open>finally\<close> block
  after the delete call has returned.
\<close>

theorem manager_delete_sent_with_heartbeat_armed:
  "\<not> stopped_before_ack False
       (snd (lifecycle example_manager msg_a [HandlerResolve, DeleteOk]))"
  by (simp add: lifecycle_def processMessageWithVisibilityHeartbeat_def finally_block_def
        example_defs)

text \<open>
  Claim C1, amended: in \<open>SQSManager\<close> (Strategy B) every hand-off to the delete buffer
  is made with the heartbeat stopped, under every schedule. In \<open>Manager\<close> (Strategy A)
  the heartbeat is stopped on every path by the time the lifecycle returns, but not
  before the ack: while the delete call is outstanding the interval is still armed,
  unless a failed extension has cleared it.
\<close>

theorem heartbeat_stop_and_ack_order:
  "stopped_before_ack False (snd (pipeline args message evs)) \<and>
   (phase (fst (lifecycle this msg evs1)) = Settled
      \<longrightarrow> \<not> timer_armed (fst (lifecycle this msg evs1))) \<and>
   (no_extend_failure evs2 \<and> phase (fst (lifecycle this msg evs2)) = InDelete
      \<longrightarrow> timer_armed (fst (lifecycle this msg evs2)))"
proof (intro conjI impI)
  show "stopped_before_ack False (snd (pipeline args message evs))"
    by (rule pipeline_stopped_before_ack)
next
  assume "phase (fst (lifecycle this msg evs1)) = Settled"
  with lifecycle_pinv[of this msg evs1]
  show "\<not> timer_armed (fst (lifecycle this msg evs1))"
    by (simp add: pinv_def)
next
  assume "no_extend_failure evs2 \<and> phase (fst (lifecycle this msg evs2)) = InDelete"
  then show "timer_armed (fst (lifecycle this msg evs2))"
    using lifecycle_armed[of evs2 this msg] by simp
qed

theorem heartbeat_stop_and_ack_order_witness:
  "phase (fst (lifecycle example_manager msg_a [HandlerResolve, DeleteOk])) = Settled \<and>
   \<not> timer_armed (fst (lifecycle example_manager msg_a [HandlerResolve, DeleteOk])) \<and>
   no_extend_failure [Tick, ExtendOk, HandlerResolve] \<and>
   phase (fst (lifecycle example_manager msg_a [Tick, ExtendOk, HandlerResolve])) = InDelete \<and>
   timer_armed (fst (lifecycle example_manager msg_a [Tick, ExtendOk, HandlerResolve])) \<and>
   stopped_before_ack False
     (snd (pipeline default_args msg_a [PromiseRejected throttled (1/2), PromiseResolved]))"
  using heartbeat_stop_and_ack_order
    [of default_args msg_a "[PromiseRejected throttled (1/2), PromiseResolved]"
        example_manager msg_a "[HandlerResolve, DeleteOk]" "[Tick, ExtendOk, HandlerResolve]"]
  by (simp add: lifecycle_def processMessageWithVisibilityHeartbeat_def finally_block_def
        no_extend_failure_def example_defs)

section \<open>Schedules in two parts\<close>

lemma srun_append:
  "srun args (evs @ evs') s = srun args evs' (srun args evs s)"
proof (induction evs arbitrary: s)
  case Nil
  then show ?case by simp
next
  case (Cons ev evs)
  obtain p tr where s: "s = (p, tr)" by (cases s)
  show ?case using Cons.IH by (simp add: s split: prod.splits)
qed

lemma prun_append:
  "prun this (evs @ evs') s = prun this evs' (prun this evs s)"
proof (induction evs arbitrary: s)
  case Nil
  then show ?case by simp
next
  case (Cons ev evs)
  obtain p tr where s: "s = (p, tr)" by (cases s)
  show ?case using Cons.IH by (simp add: s split: prod.splits)
qed

lemma srun_trace_grows:
  "\<exists>more. snd (srun args evs (p, tr)) = tr @ more"
proof (induction evs arbitrary: p tr)
  case Nil
  then show ?case by simp
next
  case (Cons ev evs)
  obtain q acts where st: "sstep args ev p = (q, acts)" by (cases "sstep args ev p")
  from Cons.IH[of q "tr @ acts"] show ?case by (auto simp: st)
qed

section \<open>A message without a receipt handle\<close>

lemma pstep_idle:
  assumes "phase p = Settled" "\<not> timer_armed p" "inflight p = 0"
  shows "pstep this ev p = (p, [])"
  using assms by (cases ev) auto

lemma prun_idle:
  assumes "phase p = Settled" "\<not> timer_armed p" "inflight p = 0"
  shows "prun this evs (p, tr) = (p, tr)"
  using assms by (induction evs) (auto simp: pstep_idle)

lemma lifecycle_no_handle:
  assumes "\<not> truthy (ReceiptHandle msg)"
  shows "lifecycle this msg evs =
           (\<lparr>handle = [], phase = Settled, timer_armed = False,
             heartbeatTimer = False, inflight = 0\<rparr>, [])"
  using assms
  by (simp add: lifecycle_def processMessageWithVisibilityHeartbeat_def prun_idle)

lemma sstep_no_extender:
  assumes "\<not> visibilityExtender p" "\<not> extender_armed p" "sstep args ev p = (q, acts)"
  shows "\<not> visibilityExtender q \<and> \<not> extender_armed q
         \<and> list_all (\<lambda>a. \<not> is_heartbeat a) acts"
  using assms
  by (cases ev)
     (auto simp: retry_error_def finalize_def call_if_def Let_def
           split: if_splits sphase.splits)

lemma srun_no_extender:
  assumes "\<not> visibilityExtender p" "\<not> extender_armed p"
    and "list_all (\<lambda>a. \<not> is_heartbeat a) tr"
  shows "list_all (\<lambda>a. \<not> is_heartbeat a) (snd (srun args evs (p, tr)))"
  using assms
proof (induction evs arbitrary: p tr)
  case Nil
  then show ?case by simp
next
  case (Cons ev evs)
  obtain q acts where st: "sstep args ev p = (q, acts)" by (cases "sstep args ev p")
  from sstep_no_extender[OF Cons.prems(1,2) st] Cons.prems(3)
  have "\<not> visibilityExtender q" "\<not> extender_armed q"
    "list_all (\<lambda>a. \<not> is_heartbeat a) (tr @ acts)"
    by auto
  from Cons.IH[OF this] show ?case by (simp add: st)
qed

lemma pipeline_calls_handler: "CallHandler \<in> set (snd (pipeline args message evs))"
proof -
  obtain p tr where st: "inner_observable args ReturnsPromise message = (p, tr)"
    by (cases "inner_observable args ReturnsPromise message")
  then have "CallHandler \<in> set tr" by (auto simp: inner_observable_def)
  moreover obtain more where "snd (srun args evs (p, tr)) = tr @ more"
    using srun_trace_grows by blast
  ultimately show ?thesis by (simp add: pipeline_def st)
qed

lemma pipeline_no_handle:
  assumes "\<not> truthy (ReceiptHandle message)"
  shows "list_all (\<lambda>a. \<not> is_heartbeat a) (snd (pipeline args message evs))"
proof -
  obtain p tr where st: "inner_observable args ReturnsPromise message = (p, tr)"
    by (cases "inner_observable args ReturnsPromise message")
  have "\<not> visibilityExtender p" "\<not> extender_armed p"
    "list_all (\<lambda>a. \<not> is_heartbeat a) tr"
    using st assms by (auto simp: inner_observable_def call_if_def)
  from srun_no_extender[OF this] show ?thesis by (simp add: pipeline_def st)
qed

section \<open>SQSManager: the hand-off on success and on exhaustion\<close>

lemma count_acks_append: "count_acks (tr @ acts) = count_acks tr + count_acks acts"
  by (induction tr rule: count_acks.induct) auto

lemma sstep_ack_inv:
  assumes "ack_inv p tr" "sstep args ev p = (q, acts)"
  shows "ack_inv q (tr @ acts)"
  using assms
  by (cases ev)
     (auto simp: ack_inv_def count_acks_append retry_error_def finalize_def call_if_def Let_def
           split: if_splits sphase.splits)

lemma srun_ack_inv:
  assumes "ack_inv p tr" "srun args evs (p, tr) = (p', tr')"
  shows "ack_inv p' tr'"
  using assms
proof (induction evs arbitrary: p tr)
  case Nil
  then show ?case by simp
next
  case (Cons ev evs)
  obtain q acts where st: "sstep args ev p = (q, acts)" by (cases "sstep args ev p")
  from sstep_ack_inv[OF Cons.prems(1) st] Cons.prems(2) Cons.IH[of q "tr @ acts"]
  show ?case by (simp add: st)
qed

lemma pipeline_ack_inv:
  assumes "pipeline args message evs = (p, tr)"
  shows "ack_inv p tr"
proof -
  obtain p0 tr0 where st: "inner_observable args ReturnsPromise message = (p0, tr0)"
    by (cases "inner_observable args ReturnsPromise message")
  have "ack_inv p0 tr0"
    using st by (auto simp: inner_observable_def ack_inv_def call_if_def)
  from srun_ack_inv[OF this] assms show ?thesis by (simp add: pipeline_def st)
qed

lemma pipeline_snoc:
  assumes "pipeline args message evs = (p, tr)"
  shows "pipeline args message (evs @ [ev]) = (fst (sstep args ev p), tr @ snd (sstep args ev p))"
  using assms by (simp add: pipeline_def srun_append split: prod.splits)

lemma addToDeleteBatch_keeps_entry:
  assumes "truthy (MessageId message)" "truthy (ReceiptHandle message)"
    and "MessageId message = Some i" "ReceiptHandle message = Some h"
    and "addToDeleteBatch b message = (b', sent)"
  shows "(i, h) \<in> set (deleteBuffer b') \<or> (\<exists>batch. SendDeleteBatch batch \<in> set sent \<and> (i, h) \<in> set batch)"
proof -
  let ?buf = "deleteBuffer b @ [(i, h)]"
  have "(i, h) \<in> set (take 10 ?buf) \<or> (i, h) \<in> set (drop 10 ?buf)"
    by (metis Un_iff append_take_drop_id in_set_conv_decomp set_append)
  then show ?thesis
    using assms
    by (auto simp: addToDeleteBatch_def push_entry_def flushBatchDelete_def Let_def
             split: if_splits)
qed

text \<open>
  What the inner observable does by itself on its two ways out: when the promise
  resolves, and when it has rejected and the retries are exhausted, the \<open>finalize\<close>
  callback stops the heartbeat and then calls \<open>addToDeleteBatch\<close>, which puts the entry
  of a message with an id and a receipt handle in the delete buffer or in the batch
  flushed at once.
\<close>

lemma finalize_hands_over:
  assumes "pipeline args message evs = (p, tr)"
  shows "(sphase p = Pending \<longrightarrow>
            pipeline args message (evs @ [PromiseResolved])
              = (p\<lparr>sphase := Finished, extender_armed := False\<rparr>,
                 tr @ [Next, Complete] @ call_if (visibilityExtender p) ClearInterval
                    @ [AddToDeleteBatch])) \<and>
         (sphase p = Delaying e \<and> maxRetries args \<le> int (soFar p) \<longrightarrow>
            pipeline args message (evs @ [RetryTimerFired rnd])
              = (p\<lparr>soFar := soFar p + 1, sphase := Finished, extender_armed := False\<rparr>,
                 tr @ [Error e] @ call_if (visibilityExtender p) ClearInterval
                    @ [AddToDeleteBatch])) \<and>
         (sphase p = Pending \<and> maxRetries args \<le> 0 \<longrightarrow>
            pipeline args message (evs @ [PromiseRejected e rnd])
              = (p\<lparr>soFar := soFar p + 1, sphase := Finished, extender_armed := False\<rparr>,
                 tr @ [Error e] @ call_if (visibilityExtender p) ClearInterval
                    @ [AddToDeleteBatch])) \<and>
         (sphase p = Finished \<longrightarrow> count_acks tr = 1 \<and> \<not> extender_armed p) \<and>
         stopped_before_ack False tr \<and>
         (MessageId message = Some i \<and> i \<noteq> [] \<and> ReceiptHandle message = Some h \<and> h \<noteq> []
            \<longrightarrow> (i, h) \<in> set (deleteBuffer (fst (addToDeleteBatch b message))) \<or>
                (\<exists>batch. SendDeleteBatch batch \<in> set (snd (addToDeleteBatch b message))
                          \<and> (i, h) \<in> set batch))"
proof (intro conjI impI)
  assume "sphase p = Pending"
  then show "pipeline args message (evs @ [PromiseResolved])
              = (p\<lparr>sphase := Finished, extender_armed := False\<rparr>,
                 tr @ [Next, Complete] @ call_if (visibilityExtender p) ClearInterval
                    @ [AddToDeleteBatch])"
    by (simp add: pipeline_snoc[OF assms] finalize_def)
next
  assume "sphase p = Delaying e \<and> maxRetries args \<le> int (soFar p)"
  then show "pipeline args message (evs @ [RetryTimerFired rnd])
              = (p\<lparr>soFar := soFar p + 1, sphase := Finished, extender_armed := False\<rparr>,
                 tr @ [Error e] @ call_if (visibilityExtender p) ClearInterval
                    @ [AddToDeleteBatch])"
    by (simp add: pipeline_snoc[OF assms] retry_error_def finalize_def)
next
  assume "sphase p = Pending \<and> maxRetries args \<le> 0"
  moreover have "0 \<le> int (soFar p)" by simp
  ultimately show "pipeline args message (evs @ [PromiseRejected e rnd])
              = (p\<lparr>soFar := soFar p + 1, sphase := Finished, extender_armed := False\<rparr>,
                 tr @ [Error e] @ call_if (visibilityExtender p) ClearInterval
                    @ [AddToDeleteBatch])"
    by (simp add: pipeline_snoc[OF assms] retry_error_def finalize_def)
next
  assume "sphase p = Finished"
  with pipeline_ack_inv[OF assms] show "count_acks tr = 1" "\<not> extender_armed p"
    by (simp_all add: ack_inv_def)
next
  show "stopped_before_ack False tr"
    using pipeline_stopped_before_ack[of args message evs] assms by simp
next
  assume "MessageId message = Some i \<and> i \<noteq> [] \<and> ReceiptHandle message = Some h \<and> h \<noteq> []"
  then show "(i, h) \<in> set (deleteBuffer (fst (addToDeleteBatch b message))) \<or>
                (\<exists>batch. SendDeleteBatch batch \<in> set (snd (addToDeleteBatch b message))
                          \<and> (i, h) \<in> set batch)"
    using addToDeleteBatch_keeps_entry[of message i h b "fst (addToDeleteBatch b message)" "snd (addToDeleteBatch b message)"]
    by (simp add: truthy_def)
qed

section \<open>SQSManager: what becomes of the hand-off\<close>

lemma stream_run_append:
  "stream_run args handler (evs @ evs') st
     = stream_run args handler evs' (stream_run args handler evs st)"
proof (induction evs arbitrary: st)
  case Nil
  then show ?case by simp
next
  case (Cons ev evs)
  obtain s tr where st: "st = (s, tr)" by (cases st)
  show ?case using Cons.IH by (simp add: st split: prod.splits)
qed

lemma sent_batches_append: "sent_batches (tr @ acts) = sent_batches tr @ sent_batches acts"
  by (induction tr rule: sent_batches.induct) auto

lemma sent_batches_Source [simp]: "sent_batches (map Source as) = []"
  by (induction as) auto

lemma sstep_over:
  assumes "sphase p = Finished \<or> sphase p = Crashed" "sstep args ev p = (p', acts)"
  shows "sphase p' = sphase p \<and> (acts = [] \<or> acts = [SendChangeVisibility (shandle p)])"
  using assms by (cases ev) (auto split: if_splits)

lemma stranded_step:
  assumes "stranded s" "stream_step args handler ev s = (s', acts)"
  shows "stranded s' \<and> batcher_state s' = batcher_state s \<and> sent_batches acts = []"
proof (cases ev)
  case (Received msgs)
  have d: "deliver args handler ms s = (s, [])" for ms
    using assms(1) by (induction ms) (auto simp: stranded_def)
  show ?thesis
    using assms Received d
    by (auto simp: received_def poll_next_def stranded_def split: if_splits)
next
  case (ReceiveFailed e)
  with assms show ?thesis
    by (auto simp: receive_failed_stream_def outer_error_def stranded_def split: if_splits)
next
  case Unsubscribed
  with assms show ?thesis by (auto simp: close_stream_def stranded_def)
next
  case (ChainEvent i cev)
  show ?thesis
  proof (cases "i < length (chains s)")
    case False
    with assms ChainEvent show ?thesis by (simp add: chain_event_def)
  next
    case True
    obtain m p where mp: "chains s ! i = (m, p)" by (cases "chains s ! i")
    obtain p' as where st: "sstep args cev p = (p', as)" by (cases "sstep args cev p")
    have ph: "sphase p = Finished \<or> sphase p = Crashed"
      using assms(1) True mp by (auto simp: stranded_def list_all_length)
    from sstep_over[OF ph st]
    have p': "sphase p' = sphase p" and as: "as = [] \<or> as = [SendChangeVisibility (shandle p)]"
      by auto
    let ?s = "s\<lparr>chains := (chains s)[i := (m, p')]\<rparr>"
    have all: "list_all (\<lambda>(m, p). sphase p = Finished \<or> sphase p = Crashed) ((chains s)[i := (m, p')])"
      using assms(1) ph p'
      by (auto simp: stranded_def list_all_iff dest!: set_update_subset_insert[THEN subsetD])
    have "s' = ?s" "sent_batches acts = []"
      using assms(2) ChainEvent True mp st as by (auto simp: chain_event_def)
    then show ?thesis using assms(1) all by (simp add: stranded_def)
  qed
next
  case FlushTimer
  with assms show ?thesis by (auto simp: stranded_def)
next
  case (DeleteBatchOk i)
  with assms show ?thesis by (auto simp: stranded_def batch_settled_def)
next
  case (DeleteBatchFailed i)
  with assms show ?thesis by (auto simp: stranded_def batch_settled_def)
qed

lemma stranded_run:
  assumes "stranded s"
  shows "batcher_state (fst (stream_run args handler evs (s, tr))) = batcher_state s \<and>
         sent_batches (snd (stream_run args handler evs (s, tr))) = sent_batches tr"
  using assms
proof (induction evs arbitrary: s tr)
  case Nil
  then show ?case by simp
next
  case (Cons ev evs)
  obtain s' acts where st: "stream_step args handler ev s = (s', acts)"
    by (cases "stream_step args handler ev s")
  from stranded_step[OF Cons.prems st] Cons.IH[of s' "tr @ acts"]
  show ?case by (simp add: st sent_batches_append)
qed
lemma exhausted_eval:
  "stream_run default_args promising exhausted_run processMessage
     = (\<lparr>listen_state = \<lparr>isListening = False, closed = True, awaiting = True\<rparr>,
          active = 1, merge_buffer = [],
          chains = [(msg_a, \<lparr>shandle = ''rh1'', sphase = Finished, soFar = 6,
                              visibilityExtender = True, extender_armed = False,
                              sinflight = 0\<rparr>)],
          batcher_state = \<lparr>deleteBuffer = [(''m1'', ''rh1'')], outstanding = []\<rparr>,
          deleteInterval = False\<rparr>,
        [Source LSendReceive, Source (SubscriberNext msg_a),
         Chain 0 (SetInterval 15000), Chain 0 CallHandler, Source LSendReceive,
         Chain 0 (RetryTimer 1000), Chain 0 (RetryTimer 2000), Chain 0 (RetryTimer 4000),
         Chain 0 (RetryTimer 8000), Chain 0 (RetryTimer 16000),
         Chain 0 (Error throttled), ConsumerError throttled,
         Source ClearDeleteInterval, Source CallFlushBatchDelete,
         Chain 0 ClearInterval, Chain 0 AddToDeleteBatch])"
  by (simp add: exhausted_run_def stream_defs batch_defs example_defs)

text \<open>
  Claim C6 says that a message whose retries are exhausted is acknowledged, that is
  deleted, and that the error path does not skip the ack. The code does not do so. With
  the default arguments, one message received and its handler's promise rejected: after
  the fifth retry timer the error is passed downstream first, the consumer's subscriber
  unsubscribes the source, the teardown of \<open>listen\<close> clears the flush interval and
  flushes the (empty) buffer for the last time, and only then does the \<open>finalize\<close>
  callback stop the heartbeat and push the entry. Under every later schedule the entry
  stays in the buffer and no batch is ever sent: the message is left for redelivery.
  And when the handler call throws instead of returning a promise, the stream ends in
  the same way with no hand-off at all and the heartbeat still armed: a later tick sends
  another extension.
\<close>

theorem exhausted_message_never_deleted:
  "snd (stream_run default_args promising exhausted_run processMessage)
     = [Source LSendReceive, Source (SubscriberNext msg_a),
        Chain 0 (SetInterval 15000), Chain 0 CallHandler, Source LSendReceive,
        Chain 0 (RetryTimer 1000), Chain 0 (RetryTimer 2000), Chain 0 (RetryTimer 4000),
        Chain 0 (RetryTimer 8000), Chain 0 (RetryTimer 16000),
        Chain 0 (Error throttled), ConsumerError throttled,
        Source ClearDeleteInterval, Source CallFlushBatchDelete,
        Chain 0 ClearInterval, Chain 0 AddToDeleteBatch] \<and>
   batcher_state (fst (stream_run default_args promising (exhausted_run @ evs) processMessage))
     = \<lparr>deleteBuffer = [(''m1'', ''rh1'')], outstanding = []\<rparr> \<and>
   sent_batches (snd (stream_run default_args promising (exhausted_run @ evs) processMessage))
     = [] \<and>
   stream_run default_args throwing [Received [msg_a], ChainEvent 0 STick] processMessage
     = (\<lparr>listen_state = \<lparr>isListening = False, closed = True, awaiting = False\<rparr>,
          active = 1, merge_buffer = [],
          chains = [(msg_a, \<lparr>shandle = ''rh1'', sphase = Crashed, soFar = 0,
                              visibilityExtender = True, extender_armed = True,
                              sinflight = 1\<rparr>)],
          batcher_state = \<lparr>deleteBuffer = [], outstanding = []\<rparr>,
          deleteInterval = False\<rparr>,
        [Source LSendReceive, Source (SubscriberNext msg_a),
         Chain 0 (SetInterval 15000), Chain 0 CallHandler, Chain 0 (Error throttled),
         ConsumerError throttled, Source ClearDeleteInterval, Source CallFlushBatchDelete,
         Chain 0 (SendChangeVisibility ''rh1'')])"
proof -
  let ?s = "fst (stream_run default_args promising exhausted_run processMessage)"
  let ?tr = "snd (stream_run default_args promising exhausted_run processMessage)"
  have st: "stranded ?s"
    by (simp add: exhausted_eval stranded_def)
  have "sent_batches ?tr = []"
    by (simp add: exhausted_eval)
  with stranded_run[OF st, of default_args promising evs ?tr]
  have "batcher_state (fst (stream_run default_args promising (exhausted_run @ evs) processMessage))
          = batcher_state ?s"
    "sent_batches (snd (stream_run default_args promising (exhausted_run @ evs) processMessage)) = []"
    by (simp_all add: stream_run_append)
  moreover have "stream_run default_args throwing [Received [msg_a], ChainEvent 0 STick] processMessage
     = (\<lparr>listen_state = \<lparr>isListening = False, closed = True, awaiting = False\<rparr>,
          active = 1, merge_buffer = [],
          chains = [(msg_a, \<lparr>shandle = ''rh1'', sphase = Crashed, soFar = 0,
                              visibilityExtender = True, extender_armed = True,
                              sinflight = 1\<rparr>)],
          batcher_state = \<lparr>deleteBuffer = [], outstanding = []\<rparr>,
          deleteInterval = False\<rparr>,
        [Source LSendReceive, Source (SubscriberNext msg_a),
         Chain 0 (SetInterval 15000), Chain 0 CallHandler, Chain 0 (Error throttled),
         ConsumerError throttled, Source ClearDeleteInterval, Source CallFlushBatchDelete,
         Chain 0 (SendChangeVisibility ''rh1'')])"
    by (simp add: stream_defs batch_defs example_defs)
  ultimately show ?thesis by (simp add: exhausted_eval)
qed

section \<open>A failed lease extension\<close>

lemma pstep_disarmed:
  assumes "\<not> timer_armed p" "pstep this ev p = (q, acts)"
  shows "\<not> timer_armed q \<and> list_all (\<lambda>a. \<not> is_extension a) acts"
  using assms
  by (cases ev)
     (auto simp: extend_failed_def catch_block_def finally_block_def call_if_def Let_def
           split: if_splits)

lemma prun_disarmed:
  assumes "\<not> timer_armed p" "list_all (\<lambda>a. \<not> is_extension a) tr"
  shows "list_all (\<lambda>a. \<not> is_extension a) (snd (prun this evs (p, tr)))"
  using assms
proof (induction evs arbitrary: p tr)
  case Nil
  then show ?case by simp
next
  case (Cons ev evs)
  obtain q acts where st: "pstep this ev p = (q, acts)" by (cases "pstep this ev p")
  from pstep_disarmed[OF Cons.prems(1) st] Cons.prems(2)
  have "\<not> timer_armed q" "list_all (\<lambda>a. \<not> is_extension a) (tr @ acts)" by auto
  from Cons.IH[OF this] show ?case by (simp add: st)
qed


lemma prun_trace_shift:
  "prun this evs (p, tr) = (fst (prun this evs (p, [])), tr @ snd (prun this evs (p, [])))"
proof (induction evs arbitrary: p tr)
  case Nil
  then show ?case by simp
next
  case (Cons ev evs)
  obtain q acts where st: "pstep this ev p = (q, acts)" by (cases "pstep this ev p")
  show ?case
    using Cons.IH[of q "tr @ acts"] Cons.IH[of q acts] by (simp add: st)
qed

lemma lifecycle_append:
  assumes "lifecycle this msg evs = (p, tr)"
  shows "lifecycle this msg (evs @ evs') = prun this evs' (p, tr)"
  using assms by (simp add: lifecycle_def prun_append)

text \<open>
  Claim C5, as stated: after a failed extension the heartbeat of the message stops, the
  extension is not retried and the visibility-error callback is called. \<open>SQSManager\<close>
  only logs the failure: after a tick, a failed extension and another tick the interval
  is still armed, a second extension call has been sent and nothing else has been done.
\<close>

theorem sqsmanager_extension_retried_after_failure:
  "pipeline default_args msg_a [STick, SExtendFail throttled, STick]
     = (\<lparr>shandle = ''rh1'', sphase = Pending, soFar = 0, visibilityExtender = True,
          extender_armed = True, sinflight = 1\<rparr>,
        [SetInterval 15000, CallHandler, SendChangeVisibility ''rh1'',
         SendChangeVisibility ''rh1''])"
  by (simp add: run_defs example_defs)

text \<open>
  Claim C5, amended: in \<open>Manager\<close> (Strategy A), when an extension call fails while the
  handler is running, the interval is cleared and \<open>onErrorVisibilityTimeout\<close>, if
  supplied, is called once with the error; the lifecycle keeps awaiting the handler; no
  further extension call is sent whatever happens next; and when the handler then
  resolves the delete call is sent. In \<open>SQSManager\<close> (Strategy B) a failed extension
  changes nothing but the count of outstanding calls: the interval stays as it was, so
  the next tick sends the extension again, and nothing is called.
\<close>

theorem extension_failure:
  assumes "lifecycle this msg evs = (p, tr)" and "phase p = InHandler" and "0 < inflight p"
  shows "lifecycle this msg (evs @ [ExtendFail e])
           = (p\<lparr>inflight := inflight p - 1, timer_armed := False\<rparr>,
              tr @ ClearInterval # call_if (onErrorVisibilityTimeout this)
                                     (Call_onErrorVisibilityTimeout e)) \<and>
         (\<exists>more. snd (lifecycle this msg (evs @ ExtendFail e # evs'))
                    = tr @ ClearInterval # call_if (onErrorVisibilityTimeout this)
                                             (Call_onErrorVisibilityTimeout e) @ more
                  \<and> list_all (\<lambda>a. \<not> is_extension a) more) \<and>
         snd (lifecycle this msg (evs @ [ExtendFail e, HandlerResolve]))
           = tr @ ClearInterval # call_if (onErrorVisibilityTimeout this)
                                    (Call_onErrorVisibilityTimeout e)
                @ [SendDelete (handle p)] \<and>
         extender_armed (fst (sstep args (SExtendFail e) q)) = extender_armed q \<and>
         snd (sstep args (SExtendFail e) q) = []"
proof -
  let ?p1 = "p\<lparr>inflight := inflight p - 1, timer_armed := False\<rparr>"
  let ?acts = "ClearInterval # call_if (onErrorVisibilityTimeout this)
                                 (Call_onErrorVisibilityTimeout e)"
  have "pinv p" using lifecycle_pinv[of this msg evs] assms(1) by simp
  with assms(2) have hb: "heartbeatTimer p" by (simp add: pinv_def)
  have one: "lifecycle this msg (evs @ [ExtendFail e]) = (?p1, tr @ ?acts)"
    using assms(3) hb by (simp add: lifecycle_append[OF assms(1)] extend_failed_def)
  have "snd (lifecycle this msg (evs @ ExtendFail e # evs'))
          = (tr @ ?acts) @ snd (prun this evs' (?p1, []))"
    using prun_trace_shift[of this evs' ?p1 "tr @ ?acts"] assms(3) hb
    by (simp add: lifecycle_append[OF assms(1)] extend_failed_def)
  moreover have "list_all (\<lambda>a. \<not> is_extension a) (snd (prun this evs' (?p1, [])))"
    by (rule prun_disarmed) simp_all
  ultimately have two: "\<exists>more. snd (lifecycle this msg (evs @ ExtendFail e # evs'))
                    = tr @ ?acts @ more \<and> list_all (\<lambda>a. \<not> is_extension a) more"
    by simp
  have three: "snd (lifecycle this msg (evs @ [ExtendFail e, HandlerResolve]))
           = tr @ ?acts @ [SendDelete (handle p)]"
    using assms(2,3) hb by (simp add: lifecycle_append[OF assms(1)] extend_failed_def)
  have four: "extender_armed (fst (sstep args (SExtendFail e) q)) = extender_armed q"
    "snd (sstep args (SExtendFail e) q) = []"
    by simp_all
  from one two three four show ?thesis by simp
qed

theorem extension_failure_witness:
  "lifecycle example_manager msg_a [Tick]
     = (\<lparr>handle = ''rh1'', phase = InHandler, timer_armed = True, heartbeatTimer = True,
          inflight = 1\<rparr>,
        [SetInterval 15000, CallHandler, SendChangeVisibility ''rh1'']) \<and>
   lifecycle example_manager msg_a [Tick, ExtendFail throttled]
     = (\<lparr>handle = ''rh1'', phase = InHandler, timer_armed = False, heartbeatTimer = True,
          inflight = 0\<rparr>,
        [SetInterval 15000, CallHandler, SendChangeVisibility ''rh1'', ClearInterval,
         Call_onErrorVisibilityTimeout throttled]) \<and>
   snd (lifecycle example_manager msg_a [Tick, ExtendFail throttled, HandlerResolve])
     = [SetInterval 15000, CallHandler, SendChangeVisibility ''rh1'', ClearInterval,
         Call_onErrorVisibilityTimeout throttled, SendDelete ''rh1'']"
proof -
  have a: "lifecycle example_manager msg_a [Tick]
     = (\<lparr>handle = ''rh1'', phase = InHandler, timer_armed = True, heartbeatTimer = True,
          inflight = 1\<rparr>,
        [SetInterval 15000, CallHandler, SendChangeVisibility ''rh1''])"
    by (simp add: lifecycle_def processMessageWithVisibilityHeartbeat_def example_defs)
  show ?thesis
    using extension_failure[OF a, of throttled "[]"] a
    by (simp add: example_defs)
qed

section \<open>Retry delays\<close>














section \<open>Manager: a failed delete\<close>

lemma deletes_append: "deletes (tr @ acts) = deletes tr @ deletes acts"
  by (induction tr rule: deletes.induct) auto

lemma processing_errors_append:
  "processing_errors (tr @ acts) = processing_errors tr @ processing_errors acts"
  by (induction tr rule: processing_errors.induct) auto

lemma pstep_delete_inv:
  assumes "delete_inv p tr" "pstep this ev p = (q, acts)"
  shows "delete_inv q (tr @ acts)"
  using assms
  by (cases ev)
     (auto simp: delete_inv_def deletes_append processing_errors_append extend_failed_def
                 catch_block_def finally_block_def call_if_def Let_def
           split: if_splits)

lemma prun_delete_inv:
  assumes "delete_inv p tr" "prun this evs (p, tr) = (p', tr')"
  shows "delete_inv p' tr'"
  using assms
proof (induction evs arbitrary: p tr)
  case Nil
  then show ?case by simp
next
  case (Cons ev evs)
  obtain q acts where st: "pstep this ev p = (q, acts)" by (cases "pstep this ev p")
  from pstep_delete_inv[OF Cons.prems(1) st] Cons.prems(2) Cons.IH[of q "tr @ acts"]
  show ?case by (simp add: st)
qed

lemma lifecycle_delete_inv:
  assumes "lifecycle this msg evs = (p, tr)"
  shows "delete_inv p tr"
proof -
  obtain p0 tr0 where st: "processMessageWithVisibilityHeartbeat this msg = (p0, tr0)"
    by (cases "processMessageWithVisibilityHeartbeat this msg")
  have "delete_inv p0 tr0"
    using st
    by (auto simp: processMessageWithVisibilityHeartbeat_def delete_inv_def split: if_splits)
  from prun_delete_inv[OF this] assms show ?thesis by (simp add: lifecycle_def st)
qed

lemma pstep_settled:
  assumes "phase p = Settled" "pstep this ev p = (q, acts)"
  shows "phase q = Settled \<and> deletes acts = [] \<and> processing_errors acts = []"
  using assms
  by (cases ev) (auto simp: extend_failed_def call_if_def Let_def split: if_splits)

lemma prun_settled:
  assumes "phase p = Settled"
  shows "deletes (snd (prun this evs (p, tr))) = deletes tr \<and>
         processing_errors (snd (prun this evs (p, tr))) = processing_errors tr"
  using assms
proof (induction evs arbitrary: p tr)
  case Nil
  then show ?case by simp
next
  case (Cons ev evs)
  obtain q acts where st: "pstep this ev p = (q, acts)" by (cases "pstep this ev p")
  from pstep_settled[OF Cons.prems st] Cons.IH[of q "tr @ acts"]
  show ?case by (simp add: st deletes_append processing_errors_append)
qed

text \<open>
  Claim C10: in \<open>Manager\<close> (Strategy A), when the handler has resolved and the delete
  call then fails, the \<open>catch\<close> block gives that error to \<open>onErrorProccessMessage\<close>
  (when the callback was supplied) and the \<open>finally\<close> block clears the heartbeat. It
  is the one callback that a rejected handler reaches too. Whatever happens afterwards,
  the trace holds the one delete call and the one report: the delete is not retried.
\<close>

theorem delete_failure_reported:
  assumes "lifecycle this msg evs = (p, tr)" and "phase p = InDelete"
  shows "lifecycle this msg (evs @ [DeleteFail e])
           = (p\<lparr>phase := Settled, timer_armed := False, heartbeatTimer := False\<rparr>,
              tr @ call_if (onErrorProccessMessage this) (Call_onErrorProccessMessage e)
                 @ [ClearInterval]) \<and>
         deletes (snd (lifecycle this msg (evs @ DeleteFail e # evs'))) = [handle p] \<and>
         processing_errors (snd (lifecycle this msg (evs @ DeleteFail e # evs')))
           = call_if (onErrorProccessMessage this) e \<and>
         (phase (fst (lifecycle this msg evs0)) = InHandler \<longrightarrow>
            snd (lifecycle this msg (evs0 @ [HandlerReject e]))
              = snd (lifecycle this msg evs0)
                @ call_if (onErrorProccessMessage this) (Call_onErrorProccessMessage e)
                @ [ClearInterval])"
proof -
  let ?q = "p\<lparr>phase := Settled, timer_armed := False, heartbeatTimer := False\<rparr>"
  let ?acts = "call_if (onErrorProccessMessage this) (Call_onErrorProccessMessage e)
                 @ [ClearInterval]"
  have "pinv p" using lifecycle_pinv[of this msg evs] assms(1) by simp
  with assms(2) have hb: "heartbeatTimer p" by (simp add: pinv_def)
  have inv: "deletes tr = [handle p]" "processing_errors tr = []"
    using lifecycle_delete_inv[OF assms(1)] assms(2) by (simp_all add: delete_inv_def)
  have step: "pstep this (DeleteFail e) p = (?q, ?acts)"
    using assms(2) hb by (simp add: catch_block_def finally_block_def)
  have one: "lifecycle this msg (evs @ [DeleteFail e]) = (?q, tr @ ?acts)"
    by (simp add: lifecycle_append[OF assms(1)] step del: pstep.simps)
  have rest: "lifecycle this msg (evs @ DeleteFail e # evs') = prun this evs' (?q, tr @ ?acts)"
    by (simp add: lifecycle_append[OF assms(1)] step del: pstep.simps)
  have two: "deletes (snd (lifecycle this msg (evs @ DeleteFail e # evs'))) = [handle p]"
    using prun_settled[of ?q this evs' "tr @ ?acts"] inv
    by (simp add: rest deletes_append call_if_def)
  have three: "processing_errors (snd (lifecycle this msg (evs @ DeleteFail e # evs')))
           = call_if (onErrorProccessMessage this) e"
    using prun_settled[of ?q this evs' "tr @ ?acts"] inv
    by (simp add: rest processing_errors_append call_if_def)
  have four: "phase (fst (lifecycle this msg evs0)) = InHandler \<longrightarrow>
            snd (lifecycle this msg (evs0 @ [HandlerReject e]))
              = snd (lifecycle this msg evs0) @ ?acts"
  proof
    assume ph: "phase (fst (lifecycle this msg evs0)) = InHandler"
    obtain p0 tr0 where l0: "lifecycle this msg evs0 = (p0, tr0)"
      by (cases "lifecycle this msg evs0")
    have "pinv p0" using lifecycle_pinv[of this msg evs0] l0 by simp
    with ph l0 have "heartbeatTimer p0" by (simp add: pinv_def)
    with ph l0 show "snd (lifecycle this msg (evs0 @ [HandlerReject e]))
              = snd (lifecycle this msg evs0) @ ?acts"
      by (simp add: lifecycle_append[OF l0] catch_block_def finally_block_def)
  qed
  from one two three four show ?thesis by simp
qed

theorem delete_failure_reported_witness:
  "lifecycle example_manager msg_a [HandlerResolve]
     = (\<lparr>handle = ''rh1'', phase = InDelete, timer_armed = True, heartbeatTimer = True,
          inflight = 0\<rparr>,
        [SetInterval 15000, CallHandler, SendDelete ''rh1'']) \<and>
   snd (lifecycle example_manager msg_a [HandlerResolve, DeleteFail throttled])
     = [SetInterval 15000, CallHandler, SendDelete ''rh1'',
        Call_onErrorProccessMessage throttled, ClearInterval] \<and>
   deletes (snd (lifecycle example_manager msg_a
                   [HandlerResolve, DeleteFail throttled, HandlerResolve, DeleteFail throttled]))
     = [''rh1''] \<and>
   phase (fst (lifecycle example_manager msg_a [])) = InHandler \<and>
   snd (lifecycle example_manager msg_a [HandlerReject throttled])
     = [SetInterval 15000, CallHandler, Call_onErrorProccessMessage throttled, ClearInterval]"
proof -
  have a: "lifecycle example_manager msg_a [HandlerResolve]
     = (\<lparr>handle = ''rh1'', phase = InDelete, timer_armed = True, heartbeatTimer = True,
          inflight = 0\<rparr>,
        [SetInterval 15000, CallHandler, SendDelete ''rh1''])"
    by (simp add: lifecycle_def processMessageWithVisibilityHeartbeat_def example_defs)
  have b: "lifecycle example_manager msg_a []
     = (\<lparr>handle = ''rh1'', phase = InHandler, timer_armed = True, heartbeatTimer = True,
          inflight = 0\<rparr>,
        [SetInterval 15000, CallHandler])"
    by (simp add: lifecycle_def processMessageWithVisibilityHeartbeat_def example_defs)
  show ?thesis
    using delete_failure_reported[OF a, of throttled "[HandlerResolve, DeleteFail throttled]" "[]"] a b
    by (simp add: example_defs)
qed

section \<open>Manager: receive failures\<close>

lemma mrun_append:
  "mrun this (evs @ evs') s = mrun this evs' (mrun this evs s)"
proof (induction evs arbitrary: s)
  case Nil
  then show ?case by simp
next
  case (Cons ev evs)
  obtain m tr where s: "s = (m, tr)" by (cases s)
  show ?case using Cons.IH by (simp add: s split: prod.splits)
qed

lemma configuration_errors_append:
  "configuration_errors (tr @ acts) = configuration_errors tr @ configuration_errors acts"
  by (induction tr rule: configuration_errors.induct) auto

lemma receives_append: "receives (tr @ acts) = receives tr + receives acts"
  by (induction tr rule: receives.induct) auto

lemma receives_Proc [simp]: "receives (map (Proc i) as) = 0"
  by (induction as) auto

lemma configuration_errors_Proc [simp]: "configuration_errors (map (Proc i) as) = []"
  by (induction as) auto



lemma temporary_round:
  assumes "loop_phase m = Receiving" "running m"
    and "\<not> (isQueueNonExistent e \<or> isInvalidCredentials e)"
  shows "mrun this [ReceiveFail e, TimeoutElapsed] (m, tr)
           = (m, tr @ call_if (onErrorReceivingMessage this) (Call_onErrorReceivingMessage e)
                   @ call_if (onErrorTemporary this) (Call_onErrorTemporary e)
                   @ [SetTimeout (timeoutTemporaryError this), SendReceive])"
  using assms by (simp add: receive_failed_def loop_next_def)

lemma temporary_rounds:
  assumes "loop_phase m = Receiving" "running m"
    and "list_all (\<lambda>e. \<not> (isQueueNonExistent e \<or> isInvalidCredentials e)) es"
  shows "fst (mrun this (temporary_failures es) (m, tr)) = m \<and>
         receives (snd (mrun this (temporary_failures es) (m, tr))) = receives tr + length es"
  using assms(3)
proof (induction es arbitrary: tr)
  case Nil
  then show ?case by (simp add: temporary_failures_def)
next
  case (Cons e es)
  have e: "\<not> (isQueueNonExistent e \<or> isInvalidCredentials e)"
    and es: "list_all (\<lambda>e. \<not> (isQueueNonExistent e \<or> isInvalidCredentials e)) es"
    using Cons.prems by simp_all
  have split: "temporary_failures (e # es) = [ReceiveFail e, TimeoutElapsed] @ temporary_failures es"
    by (simp add: temporary_failures_def)
  show ?case
    unfolding split mrun_append temporary_round[OF assms(1,2) e]
    using Cons.IH[OF es] by (simp add: receives_append call_if_def)
qed

lemma listen_ended:
  assumes "\<not> awaiting l" "closed l"
  shows "lrun evs (l, tr) = (l, tr)"
  using assms
proof (induction evs)
  case Nil
  then show ?case by simp
next
  case (Cons ev evs)
  then show ?case by (cases ev) auto
qed

text \<open>
  Claim C4, as stated: every receive failure that is not a configuration error is
  reported, waited out and followed by the next receive call. \<open>SQSManager.listen\<close>
  does none of it: a throttling error is given to the subscriber as the error of the
  stream and \<open>poll\<close> returns, so the receive that follows in the schedule is never
  issued.
\<close>

theorem listen_stops_on_temporary_error:
  "\<not> (isQueueNonExistent throttled \<or> isInvalidCredentials throttled) \<and>
   lrun [LReceiveFail throttled, LReceiveOk [msg_a]] subscribe
     = (\<lparr>isListening = False, closed = True, awaiting = False\<rparr>,
        [LSendReceive, SubscriberError throttled, ClearDeleteInterval, CallFlushBatchDelete])"
  by (simp add: subscribe_def poll_next_def teardown_def isQueueNonExistent_def
        isInvalidCredentials_def example_defs)

text \<open>
  Claim C4, amended: in \<open>Manager\<close> (Strategy A), a receive failure that is not a
  configuration error, met while \<open>running\<close> holds, calls \<open>onErrorReceivingMessage\<close>
  and \<open>onErrorTemporary\<close> (when supplied), sets a timeout of
  \<open>timeoutTemporaryError\<close> and, when it has elapsed, issues the next receive call from
  the same state; so any number of such failures in a row leaves the engine running and
  issues one more receive call for each. In \<open>SQSManager.listen\<close> (Strategy B) a receive
  failure of any kind ends the poll loop: the subscriber gets the error, the teardown
  runs, and nothing is received afterwards.
\<close>

theorem temporary_receive_error:
  assumes "loop_phase m = Receiving" and "running m"
    and "list_all (\<lambda>e. \<not> (isQueueNonExistent e \<or> isInvalidCredentials e)) (e # es)"
  shows "mstep this (ReceiveFail e) m
           = (m\<lparr>loop_phase := Backoff\<rparr>,
              call_if (onErrorReceivingMessage this) (Call_onErrorReceivingMessage e)
                @ call_if (onErrorTemporary this) (Call_onErrorTemporary e)
                @ [SetTimeout (timeoutTemporaryError this)]) \<and>
         mstep this TimeoutElapsed (m\<lparr>loop_phase := Backoff\<rparr>) = (m, [SendReceive]) \<and>
         fst (mrun this (temporary_failures (e # es)) (m, tr)) = m \<and>
         receives (snd (mrun this (temporary_failures (e # es)) (m, tr)))
           = receives tr + length (e # es) \<and>
         (awaiting l \<and> \<not> closed l \<longrightarrow>
            lrun (LReceiveFail e # levs) (l, ltr)
              = (l\<lparr>isListening := False, closed := True, awaiting := False\<rparr>,
                 ltr @ [SubscriberError e, ClearDeleteInterval, CallFlushBatchDelete]))"
proof -
  have e: "\<not> (isQueueNonExistent e \<or> isInvalidCredentials e)"
    using assms(3) by simp
  have one: "mstep this (ReceiveFail e) m
           = (m\<lparr>loop_phase := Backoff\<rparr>,
              call_if (onErrorReceivingMessage this) (Call_onErrorReceivingMessage e)
                @ call_if (onErrorTemporary this) (Call_onErrorTemporary e)
                @ [SetTimeout (timeoutTemporaryError this)])"
    using assms(1,2) e by (simp add: receive_failed_def)
  have two: "mstep this TimeoutElapsed (m\<lparr>loop_phase := Backoff\<rparr>) = (m, [SendReceive])"
    using assms(1,2) by (simp add: loop_next_def)
  have four: "awaiting l \<and> \<not> closed l \<longrightarrow>
            lrun (LReceiveFail e # levs) (l, ltr)
              = (l\<lparr>isListening := False, closed := True, awaiting := False\<rparr>,
                 ltr @ [SubscriberError e, ClearDeleteInterval, CallFlushBatchDelete])"
    by (auto simp: teardown_def listen_ended)
  from one two temporary_rounds[OF assms, of this tr] four show ?thesis by simp
qed

theorem temporary_receive_error_witness:
  "loop_phase (fst start) = Receiving \<and> running (fst start) \<and>
   \<not> (isQueueNonExistent throttled \<or> isInvalidCredentials throttled) \<and>
   mrun example_manager [ReceiveFail throttled, TimeoutElapsed, ReceiveFail throttled, TimeoutElapsed] start
     = (fst start,
        [SendReceive,
         Call_onErrorReceivingMessage throttled, Call_onErrorTemporary throttled,
         SetTimeout 5000, SendReceive,
         Call_onErrorReceivingMessage throttled, Call_onErrorTemporary throttled,
         SetTimeout 5000, SendReceive]) \<and>
   awaiting (fst subscribe) \<and> \<not> closed (fst subscribe) \<and>
   fst (lrun [LReceiveFail throttled, LReceiveOk []] subscribe)
     = \<lparr>isListening = False, closed = True, awaiting = False\<rparr>"
  using temporary_receive_error[of "fst start" throttled "[throttled]" example_manager
          "snd start" "fst subscribe" "[LReceiveOk []]" "snd subscribe"]
  by (simp add: start_def subscribe_def poll_next_def teardown_def receive_failed_def
        loop_next_def isQueueNonExistent_def isInvalidCredentials_def example_defs)

section \<open>Manager: a configuration error\<close>

lemma loop_next_facts:
  assumes "loop_next m = (m', acts)"
  shows "procs m' = procs m \<and> running m' = running m \<and>
         (if running m then loop_phase m' = Receiving \<and> acts = [SendReceive]
          else loop_phase m' = Exited \<and> receives acts = 0 \<and> \<not> stop_pending m')
         \<and> configuration_errors acts = []"
  using assms by (auto simp: loop_next_def call_if_def split: if_splits)

lemma proc_event_facts:
  assumes "proc_event this i ev m = (m', acts)" "loop_phase m \<noteq> Processing"
  shows "loop_phase m' = loop_phase m \<and> running m' = running m \<and>
         receives acts = 0 \<and> configuration_errors acts = [] \<and> StopResolved \<notin> set acts"
  using assms
  by (auto simp: proc_event_def Let_def split: if_splits prod.splits)

lemma mstep_halted:
  assumes "halted m" "mstep this ev m = (m', acts)"
  shows "halted m' \<and> receives acts = 0 \<and> configuration_errors acts = []"
proof (cases ev)
  case (ProcEvent i pev)
  with assms proc_event_facts[of this i pev m m' acts] show ?thesis
    by (auto simp: halted_def)
qed (use assms in \<open>auto simp: halted_def stop_def\<close>)

lemma mrun_halted:
  assumes "halted m"
  shows "halted (fst (mrun this evs (m, tr))) \<and>
         receives (snd (mrun this evs (m, tr))) = receives tr \<and>
         configuration_errors (snd (mrun this evs (m, tr))) = configuration_errors tr"
  using assms
proof (induction evs arbitrary: m tr)
  case Nil
  then show ?case by simp
next
  case (Cons ev evs)
  obtain q acts where st: "mstep this ev m = (q, acts)" by (cases "mstep this ev m")
  from mstep_halted[OF Cons.prems st] Cons.IH[of q "tr @ acts"]
  show ?case by (simp add: st receives_append configuration_errors_append)
qed

lemma dispatch_facts:
  assumes "dispatch this msgs m = (m', acts)"
  shows "running m' = running m \<and> configuration_errors acts = [] \<and>
         (loop_phase m' = Processing \<or> loop_phase m' = Receiving \<and> running m
          \<or> loop_phase m' = Exited \<and> \<not> running m)"
proof -
  let ?started = "map (processMessageWithVisibilityHeartbeat this) msgs"
  let ?acts = "concat (map (\<lambda>(i, (p, as)). map (Proc i) as)
                   (enumerate (length (procs m)) ?started))"
  have "configuration_errors (concat (map (\<lambda>(i, (p, as)). map (Proc i) as) xs)) = []" for xs
    by (induction xs) (auto simp: configuration_errors_append)
  then have c: "configuration_errors ?acts = []" .
  show ?thesis
    using assms c
    by (auto simp: dispatch_def Let_def loop_next_def call_if_def configuration_errors_append
             split: if_splits prod.splits)
qed

lemma mstep_cfg_inv:
  assumes "cfg_inv m tr" "mstep this ev m = (m', acts)"
  shows "cfg_inv m' (tr @ acts)"
proof (cases "halted m")
  case True
  from mstep_halted[OF True assms(2)] assms(1) show ?thesis
    by (auto simp: cfg_inv_def halted_def configuration_errors_append)
next
  case False
  with assms(1) have none: "configuration_errors tr = []"
    and nb: "loop_phase m \<noteq> Blocked" "loop_phase m \<noteq> Exited"
    by (auto simp: cfg_inv_def halted_def)
  show ?thesis
  proof (cases ev)
    case StopCalled
    with assms none nb show ?thesis
      by (auto simp: cfg_inv_def halted_def stop_def split: if_splits)
  next
    case (ReceiveOk msgs)
    with assms none nb dispatch_facts[of this msgs m m' acts] show ?thesis
      by (auto simp: cfg_inv_def halted_def configuration_errors_append split: if_splits)
  next
    case (ReceiveFail e)
    with assms none nb show ?thesis
      by (auto simp: cfg_inv_def halted_def configuration_errors_append receive_failed_def
                     loop_next_def call_if_def Let_def
               split: if_splits)
  next
    case TimeoutElapsed
    with assms none nb show ?thesis
      by (auto simp: cfg_inv_def halted_def configuration_errors_append loop_next_def call_if_def
               split: if_splits)
  next
    case (ProcEvent i pev)
    obtain p' as where ps: "pstep this pev (procs m ! i) = (p', as)"
      by (cases "pstep this pev (procs m ! i)")
    from ProcEvent assms none nb ps show ?thesis
      by (auto simp: cfg_inv_def halted_def configuration_errors_append proc_event_def
                     loop_next_def call_if_def Let_def
               split: if_splits)
  qed
qed

lemma mrun_cfg_inv:
  assumes "cfg_inv m tr" "mrun this evs (m, tr) = (m', tr')"
  shows "cfg_inv m' tr'"
  using assms
proof (induction evs arbitrary: m tr)
  case Nil
  then show ?case by simp
next
  case (Cons ev evs)
  obtain q acts where st: "mstep this ev m = (q, acts)" by (cases "mstep this ev m")
  from mstep_cfg_inv[OF Cons.prems(1) st] Cons.prems(2) Cons.IH[of q "tr @ acts"]
  show ?case by (simp add: st)
qed

text \<open>
  Claim C2: when a receive call of a started \<open>Manager\<close> fails with a configuration
  error (the queue does not exist, or the credentials are invalid) and
  \<open>onErrorConfiguration\<close> was supplied, then whatever happens afterwards the callback
  has been called exactly once in the whole run, with that error; \<open>running\<close> is false;
  the loop has exited or is suspended for good in \<open>await this.stop()\<close>; and no receive
  call has been issued after the failure, hence none after any \<open>stop()\<close> has returned.
\<close>

theorem configuration_error_stops_engine:
  assumes "mrun this evs start = (m, tr)" and "loop_phase m = Receiving"
    and "isQueueNonExistent e \<or> isInvalidCredentials e"
    and "onErrorConfiguration this"
  shows "configuration_errors (snd (mrun this (evs @ ReceiveFail e # evs') start)) = [e] \<and>
         \<not> running (fst (mrun this (evs @ ReceiveFail e # evs') start)) \<and>
         (loop_phase (fst (mrun this (evs @ ReceiveFail e # evs') start)) = Blocked \<or>
          loop_phase (fst (mrun this (evs @ ReceiveFail e # evs') start)) = Exited) \<and>
         receives (snd (mrun this (evs @ ReceiveFail e # evs') start)) = receives tr"
proof -
  obtain q acts where st: "mstep this (ReceiveFail e) m = (q, acts)"
    by (cases "mstep this (ReceiveFail e) m")
  have "cfg_inv (fst start) (snd start)"
    by (simp add: start_def cfg_inv_def)
  then have "cfg_inv m tr"
    using mrun_cfg_inv[of "fst start" "snd start" this evs m tr] assms(1) by simp
  with assms(2) have none: "configuration_errors tr = []"
    by (auto simp: cfg_inv_def halted_def)
  have q: "halted q" "receives acts = 0" "configuration_errors acts = [e]"
    using st assms(2,3,4)
    by (auto simp: receive_failed_def loop_next_def call_if_def halted_def Let_def
                   configuration_errors_append split: if_splits)
  have run: "mrun this (evs @ ReceiveFail e # evs') start = mrun this evs' (q, tr @ acts)"
    by (simp add: mrun_append assms(1) st del: mstep.simps)
  show ?thesis
    using mrun_halted[OF q(1), of this evs' "tr @ acts"] q none
    by (auto simp: run receives_append configuration_errors_append halted_def)
qed

theorem configuration_error_stops_engine_witness:
  "mrun example_manager [ReceiveOk [msg_a], ProcEvent 0 (HandlerReject throttled)] start
     = (\<lparr>running = True, loop_phase = Receiving,
          procs = [\<lparr>handle = ''rh1'', phase = Settled, timer_armed = False,
                     heartbeatTimer = False, inflight = 0\<rparr>],
          stop_pending = False\<rparr>,
        [SendReceive, Proc 0 (SetInterval 15000), Proc 0 CallHandler,
         Proc 0 (Call_onErrorProccessMessage throttled), Proc 0 ClearInterval, SendReceive]) \<and>
   (isQueueNonExistent queue_missing \<or> isInvalidCredentials queue_missing) \<and>
   onErrorConfiguration example_manager \<and>
   configuration_errors (snd (mrun example_manager
      ([ReceiveOk [msg_a], ProcEvent 0 (HandlerReject throttled)]
         @ ReceiveFail queue_missing # [StopCalled, ReceiveOk [msg_a], TimeoutElapsed]) start))
     = [queue_missing] \<and>
   receives (snd (mrun example_manager
      ([ReceiveOk [msg_a], ProcEvent 0 (HandlerReject throttled)]
         @ ReceiveFail queue_missing # [StopCalled, ReceiveOk [msg_a], TimeoutElapsed]) start))
     = 2"
proof -
  have a: "mrun example_manager [ReceiveOk [msg_a], ProcEvent 0 (HandlerReject throttled)] start
     = (\<lparr>running = True, loop_phase = Receiving,
          procs = [\<lparr>handle = ''rh1'', phase = Settled, timer_armed = False,
                     heartbeatTimer = False, inflight = 0\<rparr>],
          stop_pending = False\<rparr>,
        [SendReceive, Proc 0 (SetInterval 15000), Proc 0 CallHandler,
         Proc 0 (Call_onErrorProccessMessage throttled), Proc 0 ClearInterval, SendReceive])"
    by (simp add: start_def dispatch_def proc_event_def all_settled_def loop_next_def
          processMessageWithVisibilityHeartbeat_def catch_block_def finally_block_def
          example_defs)
  have b: "isQueueNonExistent queue_missing \<or> isInvalidCredentials queue_missing"
    by (simp add: isQueueNonExistent_def example_defs)
  have c: "onErrorConfiguration example_manager"
    by (simp add: example_defs)
  show ?thesis
    using configuration_error_stops_engine[OF a _ b c, of "[StopCalled, ReceiveOk [msg_a], TimeoutElapsed]"] a b c
    by simp
qed

section \<open>Manager: stop waits for the batch\<close>

lemma pstep_stays_settled:
  assumes "phase p = Settled"
  shows "phase (fst (pstep this ev p)) = Settled"
  using assms
  by (cases ev) (auto simp: extend_failed_def Let_def split: if_splits)

lemma all_settled_update:
  assumes "all_settled m" "i < length (procs m)" "pstep this ev (procs m ! i) = (p', as)"
  shows "all_settled (m\<lparr>procs := (procs m)[i := p']\<rparr>)"
proof -
  have "phase (procs m ! i) = Settled"
    using assms(1,2) by (simp add: all_settled_def list_all_length)
  then have "phase p' = Settled"
    using pstep_stays_settled[of "procs m ! i" this ev] assms(3) by simp
  then show ?thesis
    using assms(1) by (auto simp: all_settled_def list_all_iff dest: set_update_subset_insert[THEN subsetD])
qed

lemma loop_next_stop_inv:
  assumes "StopResolved \<in> set tr \<longrightarrow> loop_phase m = Exited" "all_settled m"
    and "loop_phase m \<noteq> Exited" "loop_next m = (m', acts)"
  shows "stop_inv m' (tr @ acts)"
  using assms
  by (auto simp: loop_next_def stop_inv_def all_settled_def call_if_def split: if_splits)

lemma dispatch_stop_inv:
  assumes "stop_inv m tr" "loop_phase m = Receiving" "dispatch this msgs m = (m', acts)"
  shows "stop_inv m' (tr @ acts)"
proof -
  let ?started = "map (processMessageWithVisibilityHeartbeat this) msgs"
  let ?acts = "concat (map (\<lambda>(i, (p, as)). map (Proc i) as)
                   (enumerate (length (procs m)) ?started))"
  let ?m = "m\<lparr>procs := procs m @ map fst ?started\<rparr>"
  have "StopResolved \<notin> set (concat (map (\<lambda>(i, (p, as)). map (Proc i) as) xs))" for xs
    by (induction xs) auto
  then have n: "StopResolved \<notin> set ?acts" .
  have nr: "StopResolved \<notin> set tr"
    using assms(1,2) by (auto simp: stop_inv_def)
  show ?thesis
  proof (cases "all_settled ?m")
    case True
    obtain m'' more where ln: "loop_next ?m = (m'', more)" by (cases "loop_next ?m")
    have "stop_inv m'' ((tr @ ?acts) @ more)"
      by (rule loop_next_stop_inv[OF _ True _ ln]) (use n nr assms(2) in auto)
    moreover have "m' = m''" "acts = ?acts @ more"
      using assms(3) True ln by (simp_all add: dispatch_def Let_def)
    ultimately show ?thesis by simp
  next
    case False
    then have "m' = ?m\<lparr>loop_phase := Processing\<rparr>" "acts = ?acts"
      using assms(3) by (simp_all add: dispatch_def Let_def)
    then show ?thesis using n nr by (simp add: stop_inv_def)
  qed
qed

lemma proc_event_stop_inv:
  assumes "stop_inv m tr" "proc_event this i ev m = (m', acts)"
  shows "stop_inv m' (tr @ acts)"
proof (cases "i < length (procs m)")
  case False
  with assms show ?thesis by (simp add: proc_event_def)
next
  case True
  obtain p' as where ps: "pstep this ev (procs m ! i) = (p', as)"
    by (cases "pstep this ev (procs m ! i)")
  let ?m = "m\<lparr>procs := (procs m)[i := p']\<rparr>"
  show ?thesis
  proof (cases "loop_phase m = Processing")
    case False
    then have "all_settled m" using assms(1) by (simp add: stop_inv_def)
    from all_settled_update[OF this True ps]
    have "all_settled ?m" .
    moreover have "m' = ?m" "acts = map (Proc i) as"
      using assms(2) True ps False by (simp_all add: proc_event_def)
    ultimately show ?thesis
      using assms(1) False by (auto simp: stop_inv_def)
  next
    case proc: True
    then have nr: "StopResolved \<notin> set tr"
      using assms(1) by (auto simp: stop_inv_def)
    show ?thesis
    proof (cases "all_settled ?m")
      case True
      obtain m'' more where ln: "loop_next ?m = (m'', more)" by (cases "loop_next ?m")
      have "stop_inv m'' ((tr @ map (Proc i) as) @ more)"
        by (rule loop_next_stop_inv[OF _ True _ ln]) (use nr proc in auto)
      moreover have "m' = m''" "acts = map (Proc i) as @ more"
        using assms(2) \<open>i < length (procs m)\<close> ps proc True ln
        by (simp_all add: proc_event_def)
      ultimately show ?thesis by simp
    next
      case False
      then have "m' = ?m" "acts = map (Proc i) as"
        using assms(2) \<open>i < length (procs m)\<close> ps proc by (simp_all add: proc_event_def)
      then show ?thesis using nr proc by (auto simp: stop_inv_def)
    qed
  qed
qed

lemma mstep_stop_inv:
  assumes "stop_inv m tr" "mstep this ev m = (m', acts)"
  shows "stop_inv m' (tr @ acts)"
proof (cases ev)
  case StopCalled
  with assms show ?thesis
    by (auto simp: stop_inv_def stop_def all_settled_def split: if_splits)
next
  case (ReceiveOk msgs)
  with assms dispatch_stop_inv[of m tr this msgs m' acts] show ?thesis
    by (auto split: if_splits)
next
  case (ReceiveFail e)
  show ?thesis
  proof (cases "loop_phase m = Receiving")
    case False
    with assms ReceiveFail show ?thesis by simp
  next
    case True
    then have s: "all_settled m" and nr: "StopResolved \<notin> set tr"
      using assms(1) by (auto simp: stop_inv_def)
    obtain m'' more where ln: "loop_next m = (m'', more)" by (cases "loop_next m")
    have l: "stop_inv m'' (tr @ pre @ more)" if "StopResolved \<notin> set pre" for pre
      using loop_next_stop_inv[of "tr @ pre" m m'' more] s nr True ln that by auto
    show ?thesis
      using assms(2) ReceiveFail True s nr ln
        l[of "call_if (onErrorReceivingMessage this) (Call_onErrorReceivingMessage e)"]
        l[of "call_if (onErrorReceivingMessage this) (Call_onErrorReceivingMessage e)
              @ call_if (onErrorConfiguration this) (Call_onErrorConfiguration e)"]
      by (auto simp: receive_failed_def Let_def call_if_def stop_inv_def all_settled_def
               split: if_splits)
  qed
next
  case TimeoutElapsed
  show ?thesis
  proof (cases "loop_phase m = Backoff")
    case False
    with assms TimeoutElapsed show ?thesis by simp
  next
    case True
    then have "all_settled m" "StopResolved \<in> set tr \<longrightarrow> loop_phase m = Exited"
      using assms(1) by (auto simp: stop_inv_def)
    from loop_next_stop_inv[OF this(2,1)] True assms(2) TimeoutElapsed
    show ?thesis by simp
  qed
next
  case (ProcEvent i pev)
  with assms proc_event_stop_inv[of m tr this i pev m' acts] show ?thesis by simp
qed

lemma mrun_stop_inv:
  assumes "stop_inv m tr" "mrun this evs (m, tr) = (m', tr')"
  shows "stop_inv m' tr'"
  using assms
proof (induction evs arbitrary: m tr)
  case Nil
  then show ?case by simp
next
  case (Cons ev evs)
  obtain q acts where st: "mstep this ev m = (q, acts)" by (cases "mstep this ev m")
  from mstep_stop_inv[OF Cons.prems(1) st] Cons.prems(2) Cons.IH[of q "tr @ acts"]
  show ?case by (simp add: st)
qed

text \<open>
  When \<open>start()\<close> is called once: in every run, once the promise of a \<open>stop()\<close> called
  while running has resolved, the loop has left its \<open>while\<close> and every lifecycle that was
  dispatched has returned; a receive call that returns \<open>N\<close> messages starts exactly \<open>N\<close>
  lifecycles; \<open>stop()\<close> while not running changes nothing.
\<close>

lemma single_start_stop_waits_for_batch:
  assumes "mrun this evs start = (m, tr)"
  shows "(StopResolved \<in> set tr \<longrightarrow> loop_phase m = Exited \<and> all_settled m) \<and>
         (loop_phase m = Receiving \<longrightarrow>
            length (procs (fst (mstep this (ReceiveOk msgs) m))) = length (procs m) + length msgs) \<and>
         (\<not> running m \<longrightarrow> mstep this StopCalled m = (m, [])) \<and>
         (running m \<longrightarrow> mstep this StopCalled m = (m\<lparr>running := False, stop_pending := True\<rparr>, []))"
proof -
  have "stop_inv (fst start) (snd start)"
    by (simp add: start_def stop_inv_def all_settled_def)
  then have inv: "stop_inv m tr"
    using mrun_stop_inv[of "fst start" "snd start" this evs m tr] assms by simp
  have one: "StopResolved \<in> set tr \<longrightarrow> loop_phase m = Exited \<and> all_settled m"
    using inv by (auto simp: stop_inv_def)
  have two: "loop_phase m = Receiving \<longrightarrow>
            length (procs (fst (mstep this (ReceiveOk msgs) m))) = length (procs m) + length msgs"
    by (auto simp: dispatch_def Let_def loop_next_def split: prod.splits)
  show ?thesis using one two by (simp add: stop_def)
qed

section \<open>Manager: the loop is the object started once\<close>

lemma settled_of_one_loop:
  assumes "list_all (\<lambda>(owner, p). owner = 0) (lifecycles g)"
  shows "settled_of 0 g = all_settled (one_loop g)"
  using assms
  by (induction "lifecycles g" arbitrary: g)
     (auto simp: settled_of_def all_settled_def one_loop_def list_all_iff)

lemma loop_next_sim:
  assumes "started_once g" "e_phase (loops g ! 0) \<noteq> Exited"
    and "e_loop_next 0 g = (g', acts)"
  shows "loop_next (one_loop g) = (one_loop g', acts) \<and> started_once g'"
  using assms
  by (auto simp: e_loop_next_def loop_next_def one_loop_def started_once_def set_phase_def
                 resolveShutdown_def call_if_def
           split: if_splits)

lemma stop_sim:
  assumes "started_once g" "e_stop g = (g', acts)"
  shows "acts = [] \<and> stop (one_loop g) = one_loop g' \<and> started_once g'"
  using assms
  by (auto simp: e_stop_def stop_def one_loop_def started_once_def split: if_splits)

lemma set_phase_one_loop:
  assumes "length (loops g) = 1"
  shows "one_loop (set_phase 0 ph g) = (one_loop g)\<lparr>loop_phase := ph\<rparr>"
  using assms by (simp add: one_loop_def set_phase_def)

lemma dispatch_sim:
  assumes "started_once g" "e_phase (loops g ! 0) = Receiving"
    and "e_dispatch this 0 msgs g = (g', acts)"
  shows "dispatch this msgs (one_loop g) = (one_loop g', acts) \<and> started_once g'"
proof -
  let ?started = "map (processMessageWithVisibilityHeartbeat this) msgs"
  let ?g = "g\<lparr>lifecycles := lifecycles g @ map (\<lambda>(p, as). (0, p)) ?started\<rparr>"
  let ?acts = "concat (map (\<lambda>(j, (p, as)). map (Proc j) as)
                   (enumerate (length (lifecycles g)) ?started))"
  have so: "started_once ?g"
    using assms(1,2) by (auto simp: started_once_def list_all_iff split: prod.splits)
  have ph: "e_phase (loops ?g ! 0) \<noteq> Exited" using assms(2) by simp
  have own: "list_all (\<lambda>(owner, p). owner = 0) (lifecycles ?g)"
    using so by (simp add: started_once_def)
  have ol: "one_loop ?g = (one_loop g)\<lparr>procs := procs (one_loop g) @ map fst ?started\<rparr>"
    by (simp add: one_loop_def comp_def case_prod_beta)
  have len: "length (procs (one_loop g)) = length (lifecycles g)"
    by (simp add: one_loop_def)
  have sett: "settled_of 0 ?g = all_settled ((one_loop g)\<lparr>procs := procs (one_loop g) @ map fst ?started\<rparr>)"
    using settled_of_one_loop[OF own] ol by simp
  show ?thesis
  proof (cases "settled_of 0 ?g")
    case True
    obtain g'' more where ln: "e_loop_next 0 ?g = (g'', more)"
      by (cases "e_loop_next 0 ?g")
    from loop_next_sim[OF so ph ln]
    have l: "loop_next (one_loop ?g) = (one_loop g'', more)" and s: "started_once g''"
      by auto
    have "g' = g''" "acts = ?acts @ more"
      using assms(3) True ln by (simp_all add: e_dispatch_def Let_def)
    then show ?thesis
      using True sett l s ol len by (simp add: dispatch_def Let_def)
  next
    case False
    have "g' = set_phase 0 Processing ?g" "acts = ?acts"
      using assms(3) False by (simp_all add: e_dispatch_def Let_def)
    moreover have "started_once (set_phase 0 Processing ?g)"
      using so ph by (auto simp: started_once_def set_phase_def)
    moreover have "one_loop (set_phase 0 Processing ?g) = (one_loop ?g)\<lparr>loop_phase := Processing\<rparr>"
      using so by (simp add: set_phase_one_loop started_once_def)
    ultimately show ?thesis
      using False sett ol len by (simp add: dispatch_def Let_def)
  qed
qed

lemma receive_failed_sim:
  assumes "started_once g" "e_phase (loops g ! 0) = Receiving"
    and "e_receive_failed this 0 e g = (g', acts)"
  shows "receive_failed this e (one_loop g) = (one_loop g', acts) \<and> started_once g'"
proof -
  let ?cb = "call_if (onErrorReceivingMessage this) (Call_onErrorReceivingMessage e)"
  let ?cbc = "call_if (onErrorConfiguration this) (Call_onErrorConfiguration e)"
  have ph: "e_phase (loops g ! 0) \<noteq> Exited" using assms(2) by simp
  have res: "resolved g = []" using assms(1,2) by (simp add: started_once_def)
  have run: "running (one_loop g) = e_running g" by (simp add: one_loop_def)
  obtain g1 a1 where ln: "e_loop_next 0 g = (g1, a1)" by (cases "e_loop_next 0 g")
  from loop_next_sim[OF assms(1) ph ln]
  have l: "loop_next (one_loop g) = (one_loop g1, a1)" and s1: "started_once g1" by auto
  show ?thesis
  proof (cases "isQueueNonExistent e \<or> isInvalidCredentials e")
    case cfg: True
    show ?thesis
    proof (cases "e_running g")
      case True
      let ?g = "g\<lparr>e_running := False,
              loops := (loops g)[0 := \<lparr>e_phase = Blocked, awaits = current g\<rparr>]\<rparr>"
      have "g' = ?g" "acts = ?cb @ ?cbc"
        using assms(3) cfg True res by (simp_all add: e_receive_failed_def Let_def)
      moreover have "started_once ?g"
        using assms(1) True by (auto simp: started_once_def)
      moreover have "one_loop ?g = (one_loop g)\<lparr>running := False, loop_phase := Blocked\<rparr>"
        using assms(1) by (simp add: one_loop_def started_once_def)
      ultimately show ?thesis
        using cfg True run by (simp add: receive_failed_def Let_def)
    next
      case False
      then have eq: "g\<lparr>e_running := False\<rparr> = g" by simp
      have "g' = g1" "acts = ?cb @ ?cbc @ a1"
        using assms(3) cfg False ln by (simp_all add: e_receive_failed_def Let_def eq)
      then show ?thesis
        using cfg False run l s1 by (simp add: receive_failed_def Let_def)
    qed
  next
    case tmp: False
    show ?thesis
    proof (cases "e_running g")
      case True
      have "g' = set_phase 0 Backoff g"
        "acts = ?cb @ call_if (onErrorTemporary this) (Call_onErrorTemporary e)
                  @ [SetTimeout (timeoutTemporaryError this)]"
        using assms(3) tmp True by (simp_all add: e_receive_failed_def Let_def)
      moreover have "started_once (set_phase 0 Backoff g)"
        using assms(1,2) by (auto simp: started_once_def set_phase_def)
      moreover have "one_loop (set_phase 0 Backoff g) = (one_loop g)\<lparr>loop_phase := Backoff\<rparr>"
        using assms(1) by (simp add: set_phase_one_loop started_once_def)
      ultimately show ?thesis
        using tmp True run by (simp add: receive_failed_def Let_def)
    next
      case False
      have "g' = g1" "acts = ?cb @ a1"
        using assms(3) tmp False ln by (simp_all add: e_receive_failed_def Let_def)
      then show ?thesis
        using tmp False run l s1 by (simp add: receive_failed_def Let_def)
    qed
  qed
qed

lemma proc_event_sim:
  assumes "started_once g" "e_proc_event this j ev g = (g', acts)"
  shows "proc_event this j ev (one_loop g) = (one_loop g', acts) \<and> started_once g'"
proof (cases "j < length (lifecycles g)")
  case False
  with assms show ?thesis by (simp add: e_proc_event_def proc_event_def one_loop_def)
next
  case True
  obtain owner p where op: "lifecycles g ! j = (owner, p)" by (cases "lifecycles g ! j")
  have own: "owner = 0"
    using assms(1) True op by (auto simp: started_once_def list_all_length)
  obtain p' as where ps: "pstep this ev p = (p', as)" by (cases "pstep this ev p")
  let ?g = "g\<lparr>lifecycles := (lifecycles g)[j := (0, p')]\<rparr>"
  have so: "started_once ?g"
    using assms(1)
    by (auto simp: started_once_def list_all_iff dest!: set_update_subset_insert[THEN subsetD])
  have ol: "one_loop ?g = (one_loop g)\<lparr>procs := (procs (one_loop g))[j := p']\<rparr>"
    by (simp add: one_loop_def map_update)
  have nth: "procs (one_loop g) ! j = p" "j < length (procs (one_loop g))"
    using True op by (simp_all add: one_loop_def)
  have lp: "loop_phase (one_loop g) = e_phase (loops g ! 0)" by (simp add: one_loop_def)
  have sett: "settled_of 0 ?g = all_settled ((one_loop g)\<lparr>procs := (procs (one_loop g))[j := p']\<rparr>)"
    using settled_of_one_loop[of ?g] so ol by (simp add: started_once_def)
  show ?thesis
  proof (cases "e_phase (loops g ! 0) = Processing \<and> settled_of 0 ?g")
    case cont: True
    obtain g'' more where ln: "e_loop_next 0 ?g = (g'', more)" by (cases "e_loop_next 0 ?g")
    have "e_phase (loops ?g ! 0) \<noteq> Exited" using cont by simp
    from loop_next_sim[OF so this ln]
    have l: "loop_next (one_loop ?g) = (one_loop g'', more)" and s: "started_once g''" by auto
    have "g' = g''" "acts = map (Proc j) as @ more"
      using assms(2) True op own ps cont ln by (simp_all add: e_proc_event_def Let_def)
    then show ?thesis
      using cont sett l s ol nth ps lp by (simp add: proc_event_def Let_def)
  next
    case stay: False
    have "g' = ?g" "acts = map (Proc j) as"
      using assms(2) True op own ps stay by (auto simp: e_proc_event_def Let_def)
    then show ?thesis
      using stay sett so ol nth ps lp by (auto simp: proc_event_def Let_def)
  qed
qed

lemma estep_sim:
  assumes "started_once g" "estep this (lift ev) g = (g', acts)"
  shows "mstep this ev (one_loop g) = (one_loop g', acts) \<and> started_once g'"
proof (cases ev)
  case StopCalled
  with assms stop_sim[of g g' acts] show ?thesis by simp
next
  case (ReceiveOk msgs)
  with assms dispatch_sim[of g this msgs g' acts] show ?thesis
    by (auto simp: one_loop_def started_once_def split: if_splits)
next
  case (ReceiveFail e)
  with assms receive_failed_sim[of g this e g' acts] show ?thesis
    by (auto simp: one_loop_def started_once_def split: if_splits)
next
  case TimeoutElapsed
  with assms loop_next_sim[of g g' acts] show ?thesis
    by (auto simp: one_loop_def started_once_def split: if_splits)
next
  case (ProcEvent j pev)
  with assms proc_event_sim[of g this j pev g' acts] show ?thesis by simp
qed

lemma erun_sim:
  assumes "started_once g"
  shows "mrun this evs (one_loop g, tr)
           = (one_loop (fst (erun this (map lift evs) (g, tr))),
              snd (erun this (map lift evs) (g, tr)))"
  using assms
proof (induction evs arbitrary: g tr)
  case Nil
  then show ?case by simp
next
  case (Cons ev evs)
  obtain g' acts where st: "estep this (lift ev) g = (g', acts)"
    by (cases "estep this (lift ev) g")
  from estep_sim[OF Cons.prems st]
  have m: "mstep this ev (one_loop g) = (one_loop g', acts)" and s: "started_once g'" by auto
  from Cons.IH[OF s, of "tr @ acts"] show ?case by (simp add: st m del: estep.simps mstep.simps)
qed

text \<open>
  A run of the loop is the run of a new object on which \<open>start()\<close> is called first and
  not again: the same actions, and the same state.
\<close>

lemma single_start_is_the_loop:
  "mrun this evs start
     = (one_loop (fst (erun this (EStart # map lift evs) (new_manager, []))),
        snd (erun this (EStart # map lift evs) (new_manager, [])))"
proof -
  have st: "estep this EStart new_manager
              = (\<lparr>e_running = True, current = 1, resolved = [], stop_waiting = [],
                   loops = [\<lparr>e_phase = Receiving, awaits = 0\<rparr>], lifecycles = []\<rparr>,
                 [SendReceive])"
    by (simp add: e_start_def new_manager_def)
  let ?g = "\<lparr>e_running = True, current = 1, resolved = [], stop_waiting = [],
                   loops = [\<lparr>e_phase = Receiving, awaits = 0\<rparr>], lifecycles = []\<rparr>"
  have so: "started_once ?g" by (simp add: started_once_def)
  have ol: "one_loop ?g = fst start" by (simp add: one_loop_def start_def)
  have run: "erun this (EStart # map lift evs) (new_manager, [])
               = erun this (map lift evs) (?g, [SendReceive])"
    by (simp add: st del: estep.simps)
  have "start = (one_loop ?g, [SendReceive])"
    by (simp add: one_loop_def start_def)
  then show ?thesis
    using erun_sim[OF so, of this evs "[SendReceive]"] by (simp only: run)
qed

section \<open>Manager: stop after a second start\<close>

text \<open>
  Claim C7 says that the promise of a \<open>stop()\<close> called while the engine is running never
  resolves before every lifecycle of the batch in flight has settled. The code breaks it
  when \<open>start()\<close> is called again before an earlier \<open>stop()\<close> has drained. \<open>start()\<close>,
  a receive call that returns one message whose handler takes its time, \<open>stop()\<close>,
  \<open>start()\<close>, \<open>stop()\<close>: the second \<open>start()\<close> finds \<open>running\<close> false, replaces the
  promise and its resolver and launches a second loop; the second \<open>stop()\<close> is called
  while running and awaits the new promise; when the receive call of the second loop
  returns nothing, that loop ends and resolves it. The second \<open>stop()\<close> has returned and
  the lifecycle of the first loop is still awaiting its handler. (The first \<open>stop()\<close>
  awaits the replaced promise, which nothing can resolve any more.)
\<close>

theorem second_stop_resolves_during_handler:
  "erun example_manager restart_run (new_manager, [])
     = (\<lparr>e_running = False, current = 2, resolved = [2], stop_waiting = [1],
          loops = [\<lparr>e_phase = Processing, awaits = 0\<rparr>, \<lparr>e_phase = Exited, awaits = 0\<rparr>],
          lifecycles = [(0, \<lparr>handle = ''rh1'', phase = InHandler, timer_armed = True,
                                heartbeatTimer = True, inflight = 0\<rparr>)]\<rparr>,
        [SendReceive, Proc 0 (SetInterval 15000), Proc 0 CallHandler, SendReceive,
         ResolveShutdown, StopResolved])"
  by (simp add: restart_run_def engine_defs example_defs)

section \<open>SQSManager: the size of the delete buffer\<close>

lemma flushBatchDelete_batch_ok: "list_all batch_ok (snd (flushBatchDelete b))"
  by (cases "deleteBuffer b") (auto simp: flushBatchDelete_def Let_def)

lemma bstep_batch_ok: "list_all batch_ok (snd (bstep ev b))"
  by (cases ev) (auto simp: addToDeleteBatch_def Let_def flushBatchDelete_batch_ok)

lemma brun_batch_ok:
  assumes "list_all batch_ok tr"
  shows "list_all batch_ok (snd (brun evs (b, tr)))"
  using assms
proof (induction evs arbitrary: b tr)
  case Nil
  then show ?case by simp
next
  case (Cons ev evs)
  obtain b' acts where st: "bstep ev b = (b', acts)" by (cases "bstep ev b")
  have "list_all batch_ok (tr @ acts)"
    using Cons.prems bstep_batch_ok[of ev b] st by simp
  from Cons.IH[OF this] show ?case by (simp add: st)
qed

lemma bstep_small:
  assumes "length (deleteBuffer b) \<le> 9" "no_batch_failure [ev]"
  shows "length (deleteBuffer (fst (bstep ev b))) \<le> 9"
  using assms
  by (cases ev)
     (auto simp: addToDeleteBatch_def push_entry_def flushBatchDelete_def batch_settled_def
                 no_batch_failure_def Let_def)

lemma brun_small:
  assumes "length (deleteBuffer b) \<le> 9" "no_batch_failure evs"
  shows "length (deleteBuffer (fst (brun evs (b, tr)))) \<le> 9"
  using assms
proof (induction evs arbitrary: b tr)
  case Nil
  then show ?case by simp
next
  case (Cons ev evs)
  obtain b' acts where st: "bstep ev b = (b', acts)" by (cases "bstep ev b")
  have "no_batch_failure [ev]" "no_batch_failure evs"
    using Cons.prems(2) by (simp_all add: no_batch_failure_def)
  from bstep_small[OF Cons.prems(1) this(1)] Cons.IH[OF _ this(2), of b' "tr @ acts"]
  show ?case by (simp add: st)
qed

text \<open>
  Claim C8, as stated: the delete buffer never holds more than ten entries, before and
  after every flush, failed flushes included. After ten hand-offs the buffer is flushed;
  when that call fails its ten entries are put back, the next hand-off makes eleven
  entries before the flush it triggers, and when that call fails too the buffer holds
  eleven entries after the flush.
\<close>

theorem delete_buffer_exceeds_ten:
  "length (deleteBuffer (fst (brun (ten_adds @ [BatchFail 0]) empty_batcher))) = 10 \<and>
   length (deleteBuffer (push_entry (fst (brun (ten_adds @ [BatchFail 0]) empty_batcher)) msg_a))
     = 11 \<and>
   length (deleteBuffer (fst (brun (ten_adds @ [BatchFail 0, Add msg_a, BatchFail 0])
                                empty_batcher))) = 11"
  by (simp add: batch_defs ten_adds_def example_defs)

text \<open>
  Claim C8, amended: every flush sends a batch of at least one and at most ten entries,
  whatever has failed before. As long as no batch-delete call has failed, the buffer
  holds at most nine entries between two events, at most ten immediately before a flush
  (the hand-off that reaches ten triggers it) and none immediately after it. A failed
  flush puts its batch back in front of what was buffered meanwhile, and the buffer is
  then not bounded by ten.
\<close>

theorem delete_batches_bounded:
  "list_all batch_ok (snd (brun evs empty_batcher)) \<and>
   (no_batch_failure evs \<longrightarrow>
      length (deleteBuffer (fst (brun evs empty_batcher))) \<le> 9 \<and>
      length (deleteBuffer (push_entry (fst (brun evs empty_batcher)) message)) \<le> 10 \<and>
      deleteBuffer (fst (flushBatchDelete (fst (brun evs empty_batcher)))) = [] \<and>
      deleteBuffer (fst (flushBatchDelete (push_entry (fst (brun evs empty_batcher)) message)))
        = [])"
proof (intro conjI impI)
  show "list_all batch_ok (snd (brun evs empty_batcher))"
    unfolding empty_batcher_def by (rule brun_batch_ok) simp
next
  assume nf: "no_batch_failure evs"
  have small: "length (deleteBuffer (fst (brun evs empty_batcher))) \<le> 9"
    unfolding empty_batcher_def by (rule brun_small[OF _ nf]) simp
  then show "length (deleteBuffer (fst (brun evs empty_batcher))) \<le> 9" .
  from small show "length (deleteBuffer (push_entry (fst (brun evs empty_batcher)) message)) \<le> 10"
    by (simp add: push_entry_def)
  from small show "deleteBuffer (fst (flushBatchDelete (fst (brun evs empty_batcher)))) = []"
    by (simp add: flushBatchDelete_def Let_def)
  from small show "deleteBuffer (fst (flushBatchDelete (push_entry (fst (brun evs empty_batcher)) message))) = []"
    by (simp add: flushBatchDelete_def push_entry_def Let_def)
qed

theorem delete_batches_bounded_witness:
  "no_batch_failure (ten_adds @ [Add msg_a, BatchOk 0, IntervalFlush]) \<and>
   brun (ten_adds @ [Add msg_a, BatchOk 0, IntervalFlush]) empty_batcher
     = (\<lparr>deleteBuffer = [], outstanding = [ [(''m1'', ''rh1'')] ]\<rparr>,
        [SendDeleteBatch (replicate 10 (''m1'', ''rh1'')), SendDeleteBatch [(''m1'', ''rh1'')]]) \<and>
   list_all batch_ok (snd (brun (ten_adds @ [BatchFail 0, Add msg_a, BatchFail 0]) empty_batcher))"
  using delete_batches_bounded[of "ten_adds @ [Add msg_a, BatchOk 0, IntervalFlush]" msg_a]
    delete_batches_bounded[of "ten_adds @ [BatchFail 0, Add msg_a, BatchFail 0]" msg_a]
  by (simp add: batch_defs ten_adds_def example_defs no_batch_failure_def eval_nat_numeral)

section \<open>A message without a receipt handle, in the stream\<close>

lemma handler_calls_append: "handler_calls (tr @ acts) = handler_calls tr + handler_calls acts"
  by (induction tr rule: handler_calls.induct) auto

lemma handler_calls_Source [simp]: "handler_calls (map Source as) = 0"
  by (induction as) auto

lemma handler_calls_Sent [simp]: "handler_calls (map Sent as) = 0"
  by (induction as) auto

lemma deliver_no_slot:
  assumes "concurrency args \<le> 0" "chains s = []"
  shows "chains (fst (deliver args handler ms s)) = [] \<and>
         handler_calls (snd (deliver args handler ms s)) = 0 \<and>
         listen_state (fst (deliver args handler ms s)) = listen_state s \<and>
         batcher_state (fst (deliver args handler ms s)) = batcher_state s \<and>
         deleteInterval (fst (deliver args handler ms s)) = deleteInterval s"
  using assms
proof (induction ms arbitrary: s)
  case Nil
  then show ?case by simp
next
  case (Cons m ms)
  have out: "outerNext args handler m s = (s\<lparr>merge_buffer := merge_buffer s @ [m]\<rparr>, [])"
    using Cons.prems(1) by (simp add: outerNext_def)
  let ?s = "s\<lparr>merge_buffer := merge_buffer s @ [m]\<rparr>"
  obtain s2 a2 where d2: "deliver args handler ms ?s = (s2, a2)"
    by (cases "deliver args handler ms ?s")
  obtain s1 a1 where d1: "deliver args handler ms s = (s1, a1)"
    by (cases "deliver args handler ms s")
  have "chains ?s = []" using Cons.prems(2) by simp
  from Cons.IH[OF Cons.prems(1) this] Cons.IH[OF Cons.prems] d1 d2
  show ?case by (simp add: out)
qed

lemma stream_step_no_slot:
  assumes "concurrency args \<le> 0" "chains s = []"
    and "stream_step args handler ev s = (s', acts)"
  shows "chains s' = [] \<and> handler_calls acts = 0"
proof (cases ev)
  case (Received msgs)
  with assms deliver_no_slot[OF assms(1,2), of handler msgs] show ?thesis
    by (auto simp: received_def poll_next_def handler_calls_append split: if_splits prod.splits)
next
  case (ReceiveFailed e)
  with assms show ?thesis
    by (auto simp: receive_failed_stream_def outer_error_def close_stream_def teardown_def
                   flushBatchDelete_def Let_def handler_calls_append
             split: if_splits prod.splits)
next
  case Unsubscribed
  with assms show ?thesis
    by (auto simp: close_stream_def teardown_def flushBatchDelete_def Let_def
             split: if_splits prod.splits)
next
  case (ChainEvent i cev)
  with assms show ?thesis by (simp add: chain_event_def)
next
  case FlushTimer
  with assms show ?thesis
    by (auto simp: flushBatchDelete_def Let_def split: if_splits prod.splits)
next
  case (DeleteBatchOk i)
  with assms show ?thesis by auto
next
  case (DeleteBatchFailed i)
  with assms show ?thesis by auto
qed

lemma stream_run_no_slot:
  assumes "concurrency args \<le> 0" "chains s = []" "handler_calls tr = 0"
  shows "chains (fst (stream_run args handler evs (s, tr))) = [] \<and>
         handler_calls (snd (stream_run args handler evs (s, tr))) = 0"
  using assms(2,3)
proof (induction evs arbitrary: s tr)
  case Nil
  then show ?case by simp
next
  case (Cons ev evs)
  obtain s' acts where st: "stream_step args handler ev s = (s', acts)"
    by (cases "stream_step args handler ev s")
  from stream_step_no_slot[OF assms(1) Cons.prems(1) st] Cons.prems(2)
  have "chains s' = []" "handler_calls (tr @ acts) = 0"
    by (simp_all add: handler_calls_append)
  from Cons.IH[OF this] show ?case by (simp add: st)
qed

lemma srun_keeps_no_extender:
  assumes "\<not> visibilityExtender p"
  shows "\<not> visibilityExtender (fst (srun args evs (p, tr)))"
  using assms
proof (induction evs arbitrary: p tr)
  case Nil
  then show ?case by simp
next
  case (Cons ev evs)
  obtain q acts where st: "sstep args ev p = (q, acts)" by (cases "sstep args ev p")
  have "\<not> visibilityExtender q"
    using Cons.prems st
    by (cases ev)
       (auto simp: retry_error_def finalize_def Let_def split: if_splits sphase.splits)
  from Cons.IH[OF this] show ?case by (simp add: st)
qed

lemma pipeline_no_extender:
  assumes "\<not> truthy (ReceiptHandle message)"
  shows "\<not> visibilityExtender (fst (pipeline args message evs))"
proof -
  obtain p tr where st: "inner_observable args ReturnsPromise message = (p, tr)"
    by (cases "inner_observable args ReturnsPromise message")
  have "\<not> visibilityExtender p"
    using st assms by (auto simp: inner_observable_def)
  from srun_keeps_no_extender[OF this] show ?thesis by (simp add: pipeline_def st)
qed

text \<open>
  Claim C9, as stated: a message without a receipt handle is not dispatched, and its
  handler is never invoked. \<open>SQSManager.processMessage\<close> has no such test: with the
  default arguments \<open>mergeMap\<close> subscribes the inner observable of a received message
  without a handle like that of any other, and its handler is called and the result
  passed on to the consumer.
\<close>

theorem sqsmanager_handler_called_without_handle:
  "\<not> truthy (ReceiptHandle msg_no_handle) \<and>
   snd (pipeline default_args msg_no_handle [PromiseResolved])
     = [CallHandler, Next, Complete, AddToDeleteBatch] \<and>
   snd (stream_run default_args promising
          [Received [msg_no_handle], ChainEvent 0 PromiseResolved] processMessage)
     = [Source LSendReceive, Source (SubscriberNext msg_no_handle), Chain 0 CallHandler,
        Source LSendReceive, Chain 0 Next, ConsumerNext, Chain 0 Complete,
        Chain 0 AddToDeleteBatch]"
  by (simp add: pipeline_def stream_defs batch_defs example_defs)

text \<open>
  Claim C9, amended: for a message without a receipt handle, \<open>Manager\<close> (Strategy A)
  returns at once, so under every schedule nothing is done for it: no handler call, no
  heartbeat, no delete. \<open>SQSManager\<close> (Strategy B) treats it like any other message:
  \<open>mergeMap\<close> subscribes its inner observable, and so calls its handler, at once while
  fewer than \<open>concurrency\<close> are active, and puts it in its buffer otherwise (with
  \<open>concurrency \<le> 0\<close> nothing is ever subscribed and no handler is ever called). Once
  subscribed, the chain starts no heartbeat and sends no extension; when the promise
  resolves the result is passed on and the message handed over with no heartbeat to
  stop; and \<open>addToDeleteBatch\<close> leaves the delete buffer as it is and sends nothing.
\<close>

theorem message_without_receipt_handle:
  assumes "\<not> truthy (ReceiptHandle msg)"
  shows "snd (lifecycle this msg evs) = [] \<and>
         phase (fst (lifecycle this msg evs)) = Settled \<and>
         (int (active s) < concurrency args \<and> handler msg = ReturnsPromise \<longrightarrow>
            outerNext args handler msg s
              = (s\<lparr>active := active s + 1,
                    chains := chains s @ [(msg, fst (inner_observable args ReturnsPromise msg))]\<rparr>,
                 [Chain (length (chains s)) CallHandler])) \<and>
         (int (active s) < concurrency args \<longrightarrow>
            take 1 (snd (outerNext args handler msg s)) = [Chain (length (chains s)) CallHandler]) \<and>
         (\<not> int (active s) < concurrency args \<longrightarrow>
            outerNext args handler msg s = (s\<lparr>merge_buffer := merge_buffer s @ [msg]\<rparr>, [])) \<and>
         (concurrency args \<le> 0 \<longrightarrow>
            chains (fst (stream_run args handler sevs processMessage)) = [] \<and>
            handler_calls (snd (stream_run args handler sevs processMessage)) = 0) \<and>
         list_all (\<lambda>a. \<not> is_heartbeat a) (snd (pipeline args msg evs')) \<and>
         (sphase (fst (pipeline args msg evs')) = Pending \<longrightarrow>
            snd (pipeline args msg (evs' @ [PromiseResolved]))
              = snd (pipeline args msg evs') @ [Next, Complete, AddToDeleteBatch]) \<and>
         addToDeleteBatch b msg = (b, [])"
proof -
  have a: "snd (lifecycle this msg evs) = []" "phase (fst (lifecycle this msg evs)) = Settled"
    using lifecycle_no_handle[OF assms, of this evs] by simp_all
  have b: "int (active s) < concurrency args \<and> handler msg = ReturnsPromise \<longrightarrow>
            outerNext args handler msg s
              = (s\<lparr>active := active s + 1,
                    chains := chains s @ [(msg, fst (inner_observable args ReturnsPromise msg))]\<rparr>,
                 [Chain (length (chains s)) CallHandler])"
    using assms by (simp add: outerNext_def doInnerSub_def inner_observable_def call_if_def)
  have b': "int (active s) < concurrency args \<longrightarrow>
            take 1 (snd (outerNext args handler msg s)) = [Chain (length (chains s)) CallHandler]"
    using assms
    by (cases "handler msg")
       (auto simp: outerNext_def doInnerSub_def inner_observable_def call_if_def
             split: prod.splits)
  have c: "\<not> int (active s) < concurrency args \<longrightarrow>
            outerNext args handler msg s = (s\<lparr>merge_buffer := merge_buffer s @ [msg]\<rparr>, [])"
    by (simp add: outerNext_def)
  have d: "concurrency args \<le> 0 \<longrightarrow>
            chains (fst (stream_run args handler sevs processMessage)) = [] \<and>
            handler_calls (snd (stream_run args handler sevs processMessage)) = 0"
  proof
    assume z: "concurrency args \<le> 0"
    have "chains (fst processMessage) = []" "handler_calls (snd processMessage) = 0"
      by (simp_all add: processMessage_def)
    from stream_run_no_slot[OF z this, of handler sevs]
    show "chains (fst (stream_run args handler sevs processMessage)) = [] \<and>
            handler_calls (snd (stream_run args handler sevs processMessage)) = 0"
      by simp
  qed
  have e: "list_all (\<lambda>a. \<not> is_heartbeat a) (snd (pipeline args msg evs'))"
    by (rule pipeline_no_handle[OF assms])
  have f: "sphase (fst (pipeline args msg evs')) = Pending \<longrightarrow>
            snd (pipeline args msg (evs' @ [PromiseResolved]))
              = snd (pipeline args msg evs') @ [Next, Complete, AddToDeleteBatch]"
  proof
    assume ph: "sphase (fst (pipeline args msg evs')) = Pending"
    obtain p tr where pt: "pipeline args msg evs' = (p, tr)" by (cases "pipeline args msg evs'")
    have "\<not> visibilityExtender p"
      using pipeline_no_extender[OF assms, of args evs'] pt by simp
    with ph pt show "snd (pipeline args msg (evs' @ [PromiseResolved]))
              = snd (pipeline args msg evs') @ [Next, Complete, AddToDeleteBatch]"
      by (simp add: pipeline_snoc[OF pt] finalize_def call_if_def)
  qed
  have g: "addToDeleteBatch b msg = (b, [])"
    using assms by (simp add: addToDeleteBatch_def)
  from a b b' c d e f g show ?thesis by blast
qed

theorem message_without_receipt_handle_witness:
  "\<not> truthy (ReceiptHandle msg_no_handle) \<and>
   snd (lifecycle example_manager msg_no_handle [Tick, HandlerResolve, DeleteOk]) = [] \<and>
   int (active (fst processMessage)) < concurrency default_args \<and>
   promising msg_no_handle = ReturnsPromise \<and>
   snd (outerNext default_args promising msg_no_handle (fst processMessage))
     = [Chain 0 CallHandler] \<and>
   \<not> int (active (fst processMessage)) < concurrency (default_args\<lparr>concurrency := 0\<rparr>) \<and>
   snd (outerNext (default_args\<lparr>concurrency := 0\<rparr>) promising msg_no_handle
          (fst processMessage)) = [] \<and>
   handler_calls (snd (stream_run (default_args\<lparr>concurrency := 0\<rparr>) promising
          [Received [msg_no_handle], ChainEvent 0 PromiseResolved] processMessage)) = 0 \<and>
   sphase (fst (pipeline default_args msg_no_handle [STick])) = Pending \<and>
   snd (pipeline default_args msg_no_handle [STick, PromiseResolved])
     = [CallHandler, Next, Complete, AddToDeleteBatch] \<and>
   addToDeleteBatch (fst empty_batcher) msg_no_handle = (fst empty_batcher, [])"
  using message_without_receipt_handle
    [of msg_no_handle example_manager "[Tick, HandlerResolve, DeleteOk]"
        "fst processMessage" default_args promising
        "[]" "[STick]" "fst empty_batcher"]
    message_without_receipt_handle
    [of msg_no_handle example_manager "[Tick, HandlerResolve, DeleteOk]"
        "fst processMessage" "default_args\<lparr>concurrency := 0\<rparr>" promising
        "[Received [msg_no_handle], ChainEvent 0 PromiseResolved]" "[STick]"
        "fst empty_batcher"]
  by (simp add: stream_defs run_defs example_defs)

end
